theory Spec2Isabelle
  imports Main "HOL-Library.Word"
begin

section \<open>Strings\<close>

text \<open>
  A JavaScript string is a sequence of UTF-16 code units.  Literals of the source are
  written through \<open>js\<close>, which sends an ASCII character to its code unit.
\<close>

type_synonym code_unit = "16 word"
type_synonym jsstring = "code_unit list"

definition js :: "string \<Rightarrow> jsstring" where
  "js s = map (\<lambda>c. of_nat (of_char c)) s"

text \<open>
  \<open>String.prototype.substring(start, end)\<close>: both indices are clamped to the length and
  swapped when \<open>start > end\<close>; with one argument the end is the length.
\<close>

definition substring :: "jsstring \<Rightarrow> nat \<Rightarrow> nat \<Rightarrow> jsstring" where
  "substring s start end =
     (let a = min start (length s); b = min end (length s)
      in take (max a b - min a b) (drop (min a b) s))"

definition substring_from :: "jsstring \<Rightarrow> nat \<Rightarrow> jsstring" where
  "substring_from s start = substring s start (length s)"

section \<open>The regular expression \<open>slotNamePattern\<close>\<close>

text \<open>
  \<open>new RegExp('{\\s*([a-z0-9\\-]+)\\s*}', 'gi')\<close>.  The pattern is a sequence of terms; a
  term is a class of code units under a greedy quantifier, possibly inside a capturing
  group.  A class is a union of single code units, ranges and \<open>\s\<close>.
\<close>

datatype cset = Single code_unit | CharRange code_unit code_unit | WhiteSpace

datatype quantifier = Once | ZeroOrMore | OneOrMore

datatype rterm = Term (capturing: bool) (cls: "cset list") (quant: quantifier)

record regexp =
  source :: "rterm list"
  global :: bool
  ignoreCase :: bool
  lastIndex :: nat

text \<open>
  \<open>\s\<close> is WhiteSpace or LineTerminator of ECMAScript: TAB, LF, VT, FF, CR, SP, NBSP,
  U+1680, U+2000..U+200A, U+2028, U+2029, U+202F, U+205F, U+3000 and U+FEFF.
\<close>

definition is_white_space :: "code_unit \<Rightarrow> bool" where
  "is_white_space c =
     (c = 0x09 \<or> c = 0x0A \<or> c = 0x0B \<or> c = 0x0C \<or> c = 0x0D \<or> c = 0x20 \<or> c = 0xA0
      \<or> c = 0x1680 \<or> (0x2000 \<le> c \<and> c \<le> 0x200A) \<or> c = 0x2028 \<or> c = 0x2029
      \<or> c = 0x202F \<or> c = 0x205F \<or> c = 0x3000 \<or> c = 0xFEFF)"

text \<open>
  Under flag \<open>i\<close> without flag \<open>u\<close> two code units match when their canonical forms
  (simple upper-casing) agree, and a code unit from 128 on is never canonicalised to one
  below 128.  Every member of the classes of \<open>slotNamePattern\<close> is below 128, where
  upper-casing is that of ASCII; so the case variants of a code unit are taken in ASCII.
\<close>

definition to_upper :: "code_unit \<Rightarrow> code_unit" where
  "to_upper c = (if 0x61 \<le> c \<and> c \<le> 0x7A then c - 0x20 else c)"

definition to_lower :: "code_unit \<Rightarrow> code_unit" where
  "to_lower c = (if 0x41 \<le> c \<and> c \<le> 0x5A then c + 0x20 else c)"

fun cset_member :: "bool \<Rightarrow> cset \<Rightarrow> code_unit \<Rightarrow> bool" where
  "cset_member ic (Single a) c = (c = a \<or> (ic \<and> (to_upper c = a \<or> to_lower c = a)))"
| "cset_member ic (CharRange lo hi) c =
     ((lo \<le> c \<and> c \<le> hi) \<or>
      (ic \<and> ((lo \<le> to_upper c \<and> to_upper c \<le> hi) \<or> (lo \<le> to_lower c \<and> to_lower c \<le> hi))))"
| "cset_member ic WhiteSpace c = is_white_space c"

definition class_member :: "bool \<Rightarrow> cset list \<Rightarrow> code_unit \<Rightarrow> bool" where
  "class_member ic cl c = list_ex (\<lambda>a. cset_member ic a c) cl"

text \<open>
  The backtracking matcher.  It returns, for a match of the terms at the head of the
  input, the piece of input each term consumed.  A greedy quantifier first takes one more
  code unit and goes on repeating; only when the rest of the pattern then fails does it
  stop repeating and hand over to the terms that follow.
\<close>

fun backtrack :: "bool \<Rightarrow> rterm list \<Rightarrow> jsstring \<Rightarrow> jsstring list option" where
  "backtrack ic [] s = Some []"
| "backtrack ic (Term g cl Once # ts) [] = None"
| "backtrack ic (Term g cl Once # ts) (c # cs) =
     (if class_member ic cl c then map_option (\<lambda>ps. [c] # ps) (backtrack ic ts cs) else None)"
| "backtrack ic (Term g cl ZeroOrMore # ts) [] = map_option (\<lambda>ps. [] # ps) (backtrack ic ts [])"
| "backtrack ic (Term g cl ZeroOrMore # ts) (c # cs) =
     (if class_member ic cl c then
        (case backtrack ic (Term g cl ZeroOrMore # ts) cs of
           Some (p # ps) \<Rightarrow> Some ((c # p) # ps)
         | _ \<Rightarrow> map_option (\<lambda>ps. [] # ps) (backtrack ic ts (c # cs)))
      else map_option (\<lambda>ps. [] # ps) (backtrack ic ts (c # cs)))"
| "backtrack ic (Term g cl OneOrMore # ts) [] = None"
| "backtrack ic (Term g cl OneOrMore # ts) (c # cs) =
     (if class_member ic cl c then
        (case backtrack ic (Term g cl ZeroOrMore # ts) cs of
           Some (p # ps) \<Rightarrow> Some ((c # p) # ps)
         | _ \<Rightarrow> None)
      else None)"

text \<open>
  The search of \<open>RegExp.prototype.exec\<close>: the matcher is tried at the start index and
  then at each later index, up to and including the length of the input.
\<close>

function search :: "regexp \<Rightarrow> jsstring \<Rightarrow> nat \<Rightarrow> (nat \<times> jsstring list) option" where
  "search R S i =
     (if length S < i then None
      else case backtrack (ignoreCase R) (source R) (drop i S) of
             Some ps \<Rightarrow> Some (i, ps)
           | None \<Rightarrow> search R S (Suc i))"
  by pat_completeness auto
termination
  by (relation "measure (\<lambda>(R, S, i). Suc (length S) - i)") auto

text \<open>
  The match array of \<open>exec\<close>: \<open>index\<close>, element 0 (the matched text) and the captures
  (elements 1, 2, ...).
\<close>

record rmatch =
  index :: nat
  matched :: jsstring
  captures :: "jsstring list"

definition exec :: "regexp \<Rightarrow> jsstring \<Rightarrow> rmatch option \<times> regexp" where
  "exec R S =
     (case search R S (if global R then lastIndex R else 0) of
        None \<Rightarrow> (None, if global R then R\<lparr>lastIndex := 0\<rparr> else R)
      | Some (i, ps) \<Rightarrow>
          (Some \<lparr>index = i, matched = concat ps,
                 captures = map snd (filter (\<lambda>(t, p). capturing t) (zip (source R) ps))\<rparr>,
           if global R then R\<lparr>lastIndex := i + length (concat ps)\<rparr> else R))"

definition slotNamePattern :: regexp where
  "slotNamePattern =
     \<lparr>source =
        [Term False [Single 0x7B] Once,
         Term False [WhiteSpace] ZeroOrMore,
         Term True [CharRange 0x61 0x7A, CharRange 0x30 0x39, Single 0x2D] OneOrMore,
         Term False [WhiteSpace] ZeroOrMore,
         Term False [Single 0x7D] Once],
      global = True, ignoreCase = True, lastIndex = 0\<rparr>"

section \<open>The translation component\<close>

text \<open>
  The render function pushes strings and the nodes that slots produce to one array.  What
  is thrown while it runs is an error value.
\<close>

datatype 'v child = Text jsstring | VNode 'v

datatype error = SyntaxError | TypeError

text \<open>
  A value found under a slot name is called and its result is spread into the array
  (\<open>result.push(...slot())\<close>): it gives the elements pushed, or throws.
\<close>

type_synonym 'v slot = "unit \<Rightarrow> error + 'v child list"

text \<open>
  The slots object is a JavaScript object: it has own properties, the producers that
  the parent component supplied, and it inherits the properties of its prototype.
\<close>

record 'v slots =
  own :: "jsstring \<Rightarrow> 'v slot option"
  proto :: "jsstring \<Rightarrow> 'v slot option"

text \<open>
  The property read \<open>slots[name]\<close>: an own property, else the property of that name on
  the prototype, else undefined.
\<close>

definition get_property :: "'v slots \<Rightarrow> jsstring \<Rightarrow> 'v slot option" where
  "get_property slots name =
     (case own slots name of Some slot \<Rightarrow> Some slot | None \<Rightarrow> proto slots name)"

text \<open>
  The slots object that Vue hands to \<open>setup\<close> is a plain object, whose prototype chain
  ends in \<open>Object.prototype\<close>.  The members of \<open>Object.prototype\<close> whose names are made of
  letters are functions; the render function calls them without \<open>this\<close> and without
  arguments.  Then \<open>toString\<close> returns \<open>[object Undefined]\<close>, which is spread into its
  characters; \<open>constructor\<close> returns an empty object and \<open>isPrototypeOf\<close> returns
  \<open>false\<close>, which cannot be spread; \<open>toLocaleString\<close>, \<open>valueOf\<close>, \<open>hasOwnProperty\<close> and
  \<open>propertyIsEnumerable\<close> throw on the undefined \<open>this\<close>.  Each of these failures is
  a \<open>TypeError\<close>.  The other members of \<open>Object.prototype\<close> have an underscore in
  their names.
\<close>

definition object_prototype :: "jsstring \<Rightarrow> 'v slot option" where
  "object_prototype name =
     (if name = js ''toString''
      then Some (\<lambda>u. Inr (map (\<lambda>c. Text [c]) (js ''[object Undefined]'')))
      else if name \<in> set [js ''constructor'', js ''toLocaleString'', js ''valueOf'',
                              js ''hasOwnProperty'', js ''isPrototypeOf'', js ''propertyIsEnumerable'']
      then Some (\<lambda>u. Inl TypeError)
      else None)"

definition plain_object :: "(jsstring \<Rightarrow> 'v slot option) \<Rightarrow> 'v slots" where
  "plain_object producers = \<lparr>own = producers, proto = object_prototype\<rparr>"

text \<open>
  \<open>slots[match[1]]\<close>: the pattern has one capturing group, which takes part in every match.
\<close>

definition slot_of :: "'v slots \<Rightarrow> rmatch \<Rightarrow> 'v slot option" where
  "slot_of slots m = (case captures m of [] \<Rightarrow> None | name # _ \<Rightarrow> get_property slots name)"

text \<open>
  The \<open>while\<close> loop of the render function.  \<open>slotNamePattern\<close> is shared by all renders,
  and \<open>exec\<close> reads and writes its \<open>lastIndex\<close>: the loop takes the value of that property
  (\<open>rli\<close>) beside the local variable \<open>lastIndex\<close> (\<open>li\<close>) and the array \<open>result\<close>.  It returns
  the array, or the error thrown by a slot, with the value the property is left at.
\<close>

function render_loop ::
  "jsstring \<Rightarrow> 'v slots \<Rightarrow> nat \<Rightarrow> nat \<Rightarrow> 'v child list \<Rightarrow> (error + 'v child list) \<times> nat" where
  "render_loop translation slots rli li result =
     (case exec (slotNamePattern\<lparr>lastIndex := rli\<rparr>) translation of
        (None, R) \<Rightarrow> (Inr (result @ [Text (substring_from translation li)]), lastIndex R)
      | (Some m, R) \<Rightarrow>
          (case (case slot_of slots m of
                   Some slot \<Rightarrow> slot ()
                 | None \<Rightarrow> Inr [Text (matched m)]) of
             Inl e \<Rightarrow> (Inl e, lastIndex R)
           | Inr pushed \<Rightarrow>
               render_loop translation slots (lastIndex R) (lastIndex R)
                 (result @ [Text (substring translation li (index m))] @ pushed)))"
  by pat_completeness auto
termination
proof (relation "measure (\<lambda>(translation, slots, rli, li, result). Suc (length translation) - rli)",
    goal_cases)
  case 1
  show ?case by simp
next
  case (2 translation slots rli li result x1 R m)
  have found: "i \<le> j \<and> j \<le> length S \<and> backtrack (ignoreCase Q) (source Q) (drop j S) = Some ps"
    if "search Q S i = Some (j, ps)" for Q S i j ps
    using that
  proof (induction Q S i rule: search.induct)
    case (1 Q S i)
    show ?case
    proof (cases "backtrack (ignoreCase Q) (source Q) (drop i S)")
      case None
      with 1 show ?thesis
        by (cases "length S < i") (auto simp del: search.simps simp add: search.simps [of Q S i])
    next
      case (Some qs)
      with "1.prems" show ?thesis
        by (cases "length S < i") (auto simp del: search.simps simp add: search.simps [of Q S i])
    qed
  qed
  have nonempty: "0 < length (concat ps)"
    if "backtrack True (source slotNamePattern) s = Some ps" for s ps
    using that by (cases s) (auto simp: slotNamePattern_def split: if_splits)
  from 2 obtain j ps where s: "search (slotNamePattern\<lparr>lastIndex := rli\<rparr>) translation rli = Some (j, ps)"
    and R: "lastIndex R = j + length (concat ps)"
    by (auto simp: exec_def slotNamePattern_def simp del: search.simps split: option.splits)
  from found [OF s] have le: "rli \<le> j" "j \<le> length translation"
    and bt: "backtrack True (source slotNamePattern) (drop j translation) = Some ps"
    by (simp_all add: slotNamePattern_def)
  have "0 < length (concat ps)"
    by (rule nonempty [OF bt])
  with le R have "rli < lastIndex R" "rli \<le> length translation"
    by linarith+
  then show ?case by simp
qed

definition render :: "jsstring \<Rightarrow> 'v slots \<Rightarrow> nat \<Rightarrow> (error + 'v child list) \<times> nat" where
  "render translation slots rli = render_loop translation slots rli 0 []"

text \<open>
  The source parses and fills in one loop.  The parsed form of a translation, the
  specification's sequence of segments, is read off the same succession of \<open>exec\<close> calls
  as the render loop makes: the texts between the matches and, for each match, the slot
  name (\<open>match[1]\<close>) with the matched text (\<open>match[0]\<close>).  Filling a segment is what the
  loop body does with it.  That the render loop returns the filled segments, or the
  first error thrown in filling them, is proved below (\<open>render_loop_segments\<close>).
\<close>

datatype segment = Literal jsstring | SlotReference jsstring jsstring

function segments_loop :: "jsstring \<Rightarrow> nat \<Rightarrow> nat \<Rightarrow> segment list" where
  "segments_loop translation rli li =
     (case exec (slotNamePattern\<lparr>lastIndex := rli\<rparr>) translation of
        (None, R) \<Rightarrow> [Literal (substring_from translation li)]
      | (Some m, R) \<Rightarrow>
          Literal (substring translation li (index m)) #
          SlotReference (case captures m of [] \<Rightarrow> [] | name # _ \<Rightarrow> name) (matched m) #
          segments_loop translation (lastIndex R) (lastIndex R))"
  by pat_completeness auto
termination
proof (relation "measure (\<lambda>(translation, rli, li). Suc (length translation) - rli)", goal_cases)
  case 1
  show ?case by simp
next
  case (2 translation rli li x1 R m)
  have found: "i \<le> j \<and> j \<le> length S \<and> backtrack (ignoreCase Q) (source Q) (drop j S) = Some ps"
    if "search Q S i = Some (j, ps)" for Q S i j ps
    using that
  proof (induction Q S i rule: search.induct)
    case (1 Q S i)
    show ?case
    proof (cases "backtrack (ignoreCase Q) (source Q) (drop i S)")
      case None
      with 1 show ?thesis
        by (cases "length S < i") (auto simp del: search.simps simp add: search.simps [of Q S i])
    next
      case (Some qs)
      with "1.prems" show ?thesis
        by (cases "length S < i") (auto simp del: search.simps simp add: search.simps [of Q S i])
    qed
  qed
  have nonempty: "0 < length (concat ps)"
    if "backtrack True (source slotNamePattern) s = Some ps" for s ps
    using that by (cases s) (auto simp: slotNamePattern_def split: if_splits)
  from 2 obtain j ps where s: "search (slotNamePattern\<lparr>lastIndex := rli\<rparr>) translation rli = Some (j, ps)"
    and R: "lastIndex R = j + length (concat ps)"
    by (auto simp: exec_def slotNamePattern_def simp del: search.simps split: option.splits)
  from found [OF s] have le: "rli \<le> j" "j \<le> length translation"
    and bt: "backtrack True (source slotNamePattern) (drop j translation) = Some ps"
    by (simp_all add: slotNamePattern_def)
  have "0 < length (concat ps)"
    by (rule nonempty [OF bt])
  with le R have "rli < lastIndex R" "rli \<le> length translation"
    by linarith+
  then show ?case by simp
qed

definition segments :: "jsstring \<Rightarrow> segment list" where
  "segments translation = segments_loop translation 0 0"

fun fill :: "'v slots \<Rightarrow> segment \<Rightarrow> error + 'v child list" where
  "fill slots (Literal text) = Inr [Text text]"
| "fill slots (SlotReference name text) =
     (case get_property slots name of Some slot \<Rightarrow> slot () | None \<Rightarrow> Inr [Text text])"

text \<open>Filling the segments in order, up to the first that throws.\<close>

fun fill_all :: "'v slots \<Rightarrow> segment list \<Rightarrow> error + 'v child list" where
  "fill_all slots [] = Inr []"
| "fill_all slots (seg # segs) =
     (case fill slots seg of
        Inl e \<Rightarrow> Inl e
      | Inr pushed \<Rightarrow>
          (case fill_all slots segs of
             Inl e \<Rightarrow> Inl e
           | Inr others \<Rightarrow> Inr (pushed @ others)))"

fun segment_text :: "segment \<Rightarrow> jsstring" where
  "segment_text (Literal text) = text"
| "segment_text (SlotReference name text) = text"

section \<open>The plugin: component setup, teardown and \<open>$t\<close>\<close>

text \<open>
  \<open>Messages\<close> is \<open>{ [index: string]: string | Messages }\<close>; an object is given by its
  entries, in the order of \<open>Object.entries\<close>.
\<close>

datatype resources = Leaf jsstring | Nested "(jsstring \<times> resources) list"

type_synonym messages = "(jsstring \<times> resources) list"

text \<open>\<open>namespaces?: string | string[]\<close>\<close>

datatype namespaces = OneNs jsstring | ManyNs "jsstring list"

record i18nOptions =
  lng :: "jsstring option"
  keyPrefix :: "jsstring option"
  namespaces :: "namespaces option"
  messages :: "messages option"

text \<open>
  The component options the mixin reads: \<open>name\<close>, \<open>__i18n\<close> (the JSON texts of the
  \<open><i18n>\<close> blocks) and \<open>i18nOptions\<close>.
\<close>

record component_options =
  name :: "jsstring option"
  i18n_blocks :: "jsstring list option"
  i18nOptions :: "i18nOptions option"

text \<open>
  A translation function is \<open>genericT\<close> (\<open>i18next.t\<close> bound to the catalog) or a result of
  \<open>i18next.getFixedT(lng, ns)\<close>, where \<open>lng\<close> may be \<open>null\<close> and \<open>ns\<close> may be undefined.
\<close>

datatype tfunction = GenericT | FixedT "jsstring option" "jsstring list option"

text \<open>
  What the plugin reads of the catalog: \<open>isInitialized\<close>, \<open>options.nsSeparator\<close> (\<open>None\<close>
  when it is not a string), \<open>options.defaultNS\<close>, and what its translation functions
  return.
\<close>

record 'o catalog =
  isInitialized :: bool
  nsSeparator :: "jsstring option"
  defaultNS :: "namespaces option"
  lookup :: "tfunction \<Rightarrow> jsstring \<Rightarrow> 'o \<Rightarrow> jsstring"

text \<open>
  The calls the plugin makes on the catalog and the reactive marker, in order:
  \<open>usingI18n()\<close>, \<open>addResourceBundle(lng, ns, resources, deep, overwrite)\<close>,
  \<open>removeResourceBundle(lng, ns)\<close>, \<open>loadNamespaces(ns)\<close>, \<open>getFixedT(lng, ns)\<close> and a call
  of a translation function with a key and options.
\<close>

datatype 'o call =
    ReadMarker
  | AddResourceBundle jsstring jsstring resources bool bool
  | RemoveResourceBundle jsstring jsstring
  | LoadNamespaces "jsstring list"
  | GetFixedT "jsstring option" "jsstring list option"
  | Translate tfunction jsstring 'o

text \<open>
  The closure stored in \<open>__translate\<close> captures \<open>keyPrefix\<close> and \<open>t\<close>.  The state is the two
  fields the mixin keeps on the instance, with the calls made so far.
\<close>

datatype closure = Closure "jsstring option" tfunction

record 'o state =
  bundles :: "(jsstring \<times> jsstring) list option"
  translate :: "closure option"
  calls :: "'o call list"

text \<open>Truthiness of a \<open>string | undefined\<close>: defined and not empty.\<close>

definition truthy :: "jsstring option \<Rightarrow> bool" where
  "truthy x = (case x of None \<Rightarrow> False | Some s \<Rightarrow> s \<noteq> [])"

text \<open>\<open>Number.prototype.toString\<close> on a non-negative integer: its decimal digits.\<close>

fun toString :: "nat \<Rightarrow> jsstring" where
  "toString n =
     (if n < 10 then [0x30 + of_nat n] else toString (n div 10) @ [0x30 + of_nat (n mod 10)])"

fun join :: "jsstring \<Rightarrow> jsstring list \<Rightarrow> jsstring" where
  "join sep [] = []"
| "join sep [x] = x"
| "join sep (x # y # ys) = x @ sep @ join sep (y # ys)"

text \<open>
  \<open>[name, rand].filter(x => !!x).join("-")\<close>, where \<open>rand\<close> is the decimal text of
  \<open>(Math.random() * 10 ** 8) | 0\<close>; that integer is the parameter \<open>random\<close>.
\<close>

definition localNs :: "jsstring option \<Rightarrow> nat \<Rightarrow> jsstring" where
  "localNs nm random =
     join (js ''-'') (concat (map (\<lambda>x. case x of None \<Rightarrow> [] | Some s \<Rightarrow> if s \<noteq> [] then [s] else [])
                              [nm, Some (toString random)]))"

text \<open>
  \<open>loadBundle\<close>: for each entry of the bundle, \<open>addResourceBundle\<close> and then the push to
  \<open>this.__bundles!\<close>, which throws when the field is undefined.  A thrown error comes
  with the state at the throw.
\<close>

fun loadBundle :: "jsstring \<Rightarrow> messages \<Rightarrow> 'o state \<Rightarrow> error option \<times> 'o state" where
  "loadBundle ns [] st = (None, st)"
| "loadBundle ns ((l, res) # rest) st =
     (let st1 = st\<lparr>calls := calls st @ [AddResourceBundle l ns res True False]\<rparr>
      in case bundles st1 of
           None \<Rightarrow> (Some TypeError, st1)
         | Some bs \<Rightarrow> loadBundle ns rest (st1\<lparr>bundles := Some (bs @ [(l, ns)])\<rparr>))"

text \<open>
  \<open>options.__i18n?.forEach(bundle => loadBundle(JSON.parse(bundle)))\<close>; \<open>JSON.parse\<close> is a
  parameter, \<open>None\<close> where it throws.
\<close>

fun loadBlocks ::
  "(jsstring \<Rightarrow> messages option) \<Rightarrow> jsstring \<Rightarrow> jsstring list \<Rightarrow> 'o state \<Rightarrow> error option \<times> 'o state" where
  "loadBlocks parse ns [] st = (None, st)"
| "loadBlocks parse ns (b # bs) st =
     (case parse b of
        None \<Rightarrow> (Some SyntaxError, st)
      | Some bundle \<Rightarrow>
          (case loadBundle ns bundle st of
             (Some e, st1) \<Rightarrow> (Some e, st1)
           | (None, st1) \<Rightarrow> loadBlocks parse ns bs st1))"

text \<open>The result of \<open>handleI18nOptions\<close>: \<open>{ lng, ns, keyPrefix }\<close>.\<close>

record resolved =
  r_lng :: "jsstring option"
  r_ns :: "jsstring list option"
  r_keyPrefix :: "jsstring option"

definition handleI18nOptions ::
  "'o catalog \<Rightarrow> component_options \<Rightarrow> jsstring \<Rightarrow> 'o state \<Rightarrow> error option \<times> resolved \<times> 'o state" where
  "handleI18nOptions i18next options ns_local st =
     (case i18nOptions options of
        None \<Rightarrow> (None, \<lparr>r_lng = None, r_ns = None, r_keyPrefix = None\<rparr>, st)
      | Some opts \<Rightarrow>
          (let declared = (case namespaces opts of None \<Rightarrow> defaultNS i18next | Some d \<Rightarrow> Some d);
               (err, st1) = (case messages opts of
                               None \<Rightarrow> (None, st)
                             | Some bundle \<Rightarrow> loadBundle ns_local bundle st);
               ns = (case declared of
                       None \<Rightarrow> None
                     | Some (OneNs n) \<Rightarrow> Some [n]
                     | Some (ManyNs l) \<Rightarrow> Some l);
               res = \<lparr>r_lng = lng opts, r_ns = ns, r_keyPrefix = keyPrefix opts\<rparr>
           in case err of
                Some e \<Rightarrow> (Some e, res, st1)
              | None \<Rightarrow>
                  (None, res,
                   case ns of
                     None \<Rightarrow> st1
                   | Some l \<Rightarrow> st1\<lparr>calls := calls st1 @ [LoadNamespaces l]\<rparr>)))"

definition getTranslationFunction ::
  "jsstring option \<Rightarrow> jsstring list option \<Rightarrow> 'o state \<Rightarrow> tfunction \<times> 'o state" where
  "getTranslationFunction l ns st =
     (if truthy l then (FixedT l ns, st\<lparr>calls := calls st @ [GetFixedT l ns]\<rparr>)
      else if ns \<noteq> None then (FixedT None ns, st\<lparr>calls := calls st @ [GetFixedT None ns]\<rparr>)
      else (GenericT, st))"

text \<open>\<open>key.includes(nsSeparator)\<close>\<close>

fun includes_str :: "jsstring \<Rightarrow> jsstring \<Rightarrow> bool" where
  "includes_str [] sub = (sub = [])"
| "includes_str (c # cs) sub = (take (length sub) (c # cs) = sub \<or> includes_str cs sub)"

definition includesNs :: "'o catalog \<Rightarrow> jsstring \<Rightarrow> bool" where
  "includesNs i18next key = (case nsSeparator i18next of None \<Rightarrow> False | Some sep \<Rightarrow> includes_str key sep)"

definition call_t :: "'o catalog \<Rightarrow> tfunction \<Rightarrow> jsstring \<Rightarrow> 'o \<Rightarrow> jsstring \<times> 'o call list" where
  "call_t i18next f key options = (lookup i18next f key options, [Translate f key options])"

text \<open>The body of the closure \<open>this.__translate\<close>.\<close>

fun apply_translate :: "'o catalog \<Rightarrow> closure \<Rightarrow> jsstring \<Rightarrow> 'o \<Rightarrow> jsstring \<times> 'o call list" where
  "apply_translate i18next (Closure prefix t) key options =
     (if \<not> truthy prefix \<or> includesNs i18next key then call_t i18next t key options
      else call_t i18next t ((case prefix of None \<Rightarrow> [] | Some p \<Rightarrow> p) @ js ''.'' @ key) options)"

definition beforeCreate ::
  "(jsstring \<Rightarrow> messages option) \<Rightarrow> 'o catalog \<Rightarrow> nat \<Rightarrow> component_options \<Rightarrow> 'o state \<Rightarrow>
     error option \<times> 'o state" where
  "beforeCreate parse i18next random options st =
     (if i18n_blocks options = None \<and> i18nOptions options = None
      then (None, st\<lparr>translate := None\<rparr>)
      else
        (let ns_local = localNs (name options) random;
             st1 = st\<lparr>bundles := Some []\<rparr>
         in case loadBlocks parse ns_local
                   (case i18n_blocks options of None \<Rightarrow> [] | Some bs \<Rightarrow> bs) st1 of
              (Some e, st2) \<Rightarrow> (Some e, st2)
            | (None, st2) \<Rightarrow>
                (case handleI18nOptions i18next options ns_local st2 of
                   (Some e, res, st3) \<Rightarrow> (Some e, st3)
                 | (None, res, st3) \<Rightarrow>
                     (let ns = (if (case bundles st3 of None \<Rightarrow> False | Some bs \<Rightarrow> bs \<noteq> [])
                                then Some (ns_local # (case r_ns res of None \<Rightarrow> [] | Some l \<Rightarrow> l))
                                else r_ns res);
                          (t, st4) = getTranslationFunction (r_lng res) ns st3
                      in (None, st4\<lparr>translate := Some (Closure (r_keyPrefix res) t)\<rparr>)))))"

text \<open>\<open>this.__bundles?.forEach(([lng, ns]) => i18next.removeResourceBundle(lng, ns))\<close>\<close>

definition unmounted :: "'o state \<Rightarrow> 'o state" where
  "unmounted st =
     (case bundles st of
        None \<Rightarrow> st
      | Some bs \<Rightarrow> st\<lparr>calls := calls st @ map (\<lambda>(l, ns). RemoveResourceBundle l ns) bs\<rparr>)"

text \<open>
  The global \<open>$t\<close>.  \<open>this\<close> is the calling component's \<open>__translate\<close> field, \<open>None\<close> also
  when \<open>this\<close> is undefined.
\<close>

definition dollar_t ::
  "'o catalog \<Rightarrow> closure option \<Rightarrow> jsstring \<Rightarrow> 'o \<Rightarrow> jsstring \<times> 'o call list" where
  "dollar_t i18next this key options =
     (let used = [ReadMarker]
      in if isInitialized i18next
         then (let (r, cs) = (case this of
                                Some tr \<Rightarrow> apply_translate i18next tr key options
                              | None \<Rightarrow> call_t i18next GenericT key options)
               in (r, used @ cs))
         else (key, used))"

section \<open>Vocabulary of the properties\<close>

text \<open>
  The code units a slot name is made of: ASCII letters of either case, digits and the
  hyphen; and those of the specification's wording: lowercase letters, digits and the
  hyphen.
\<close>

definition is_name_char :: "code_unit \<Rightarrow> bool" where
  "is_name_char c =
     ((0x61 \<le> c \<and> c \<le> 0x7A) \<or> (0x41 \<le> c \<and> c \<le> 0x5A) \<or> (0x30 \<le> c \<and> c \<le> 0x39) \<or> c = 0x2D)"

definition is_lower_name_char :: "code_unit \<Rightarrow> bool" where
  "is_lower_name_char c = ((0x61 \<le> c \<and> c \<le> 0x7A) \<or> (0x30 \<le> c \<and> c \<le> 0x39) \<or> c = 0x2D)"

text \<open>
  The exact shape of a slot: an opening brace, whitespace, a non-empty name, whitespace,
  a closing brace.
\<close>

definition slot_text :: "(code_unit \<Rightarrow> bool) \<Rightarrow> jsstring \<Rightarrow> jsstring \<Rightarrow> bool" where
  "slot_text name_char nm w =
     (\<exists>ws1 ws2. w = [0x7B] @ ws1 @ nm @ ws2 @ [0x7D] \<and> list_all is_white_space ws1 \<and>
        list_all is_white_space ws2 \<and> nm \<noteq> [] \<and> list_all name_char nm)"

text \<open>
  Slot occurrences \<open>(start, name, text)\<close> that follow one another in a translation from
  index \<open>li\<close> on, and the segments they cut the translation into.
\<close>

fun chain :: "jsstring \<Rightarrow> nat \<Rightarrow> (nat \<times> jsstring \<times> jsstring) list \<Rightarrow> bool" where
  "chain t li [] = True"
| "chain t li ((i, nm, w) # ms) =
     (li \<le> i \<and> i + length w \<le> length t \<and> w = take (length w) (drop i t) \<and>
      slot_text is_name_char nm w \<and> chain t (i + length w) ms)"

fun assemble :: "jsstring \<Rightarrow> nat \<Rightarrow> (nat \<times> jsstring \<times> jsstring) list \<Rightarrow> segment list" where
  "assemble t li [] = [Literal (drop li t)]"
| "assemble t li ((i, nm, w) # ms) =
     Literal (take (i - li) (drop li t)) # SlotReference nm w # assemble t (i + length w) ms"

text \<open>The bundles added and removed by a sequence of calls.\<close>

fun registered :: "'o call list \<Rightarrow> (jsstring \<times> jsstring) list" where
  "registered [] = []"
| "registered (AddResourceBundle l ns res deep overwrite # cs) = (l, ns) # registered cs"
| "registered (c # cs) = registered cs"

fun removed :: "'o call list \<Rightarrow> (jsstring \<times> jsstring) list" where
  "removed [] = []"
| "removed (RemoveResourceBundle l ns # cs) = (l, ns) # removed cs"
| "removed (c # cs) = removed cs"

text \<open>Whether a call asks the catalog to overwrite existing keys.\<close>

fun requests_overwrite :: "'o call \<Rightarrow> bool" where
  "requests_overwrite (AddResourceBundle l ns res deep overwrite) = overwrite"
| "requests_overwrite c = False"

text \<open>
  An \<open>addResourceBundle\<close> call under the namespace \<open>ns\<close> with \<open>deep = true\<close> and
  \<open>overwrite = false\<close>; calls of other kinds pass.
\<close>

fun local_add :: "jsstring \<Rightarrow> 'o call \<Rightarrow> bool" where
  "local_add ns (AddResourceBundle l n res deep overwrite) = (n = ns \<and> deep \<and> \<not> overwrite)"
| "local_add ns c = True"

text \<open>
  The namespaces a component declares: \<open>i18nOptions.namespaces\<close>, by default
  \<open>options.defaultNS\<close> of the catalog, as a list.
\<close>

definition declared_ns :: "'o catalog \<Rightarrow> component_options \<Rightarrow> jsstring list" where
  "declared_ns i18next options =
     (case i18nOptions options of
        None \<Rightarrow> []
      | Some opts \<Rightarrow>
          (case (case namespaces opts of None \<Rightarrow> defaultNS i18next | Some d \<Rightarrow> Some d) of
             None \<Rightarrow> []
           | Some (OneNs n) \<Rightarrow> [n]
           | Some (ManyNs l) \<Rightarrow> l))"

text \<open>What a step of the setup does to the state: calls are appended, and the bundle list
  grows by the bundles the new calls add.\<close>

definition extends :: "jsstring \<Rightarrow> 'o state \<Rightarrow> 'o state \<Rightarrow> 'o call list \<Rightarrow> bool" where
  "extends ns st st' new =
     (calls st' = calls st @ new \<and> translate st' = translate st \<and>
      (\<exists>bs. bundles st = Some bs \<and> bundles st' = Some (bs @ registered new)) \<and>
      removed new = [] \<and> list_all (local_add ns) new)"

section \<open>Facts about the matcher and the two loops\<close>

declare search.simps [simp del] render_loop.simps [simp del] segments_loop.simps [simp del]

lemma search_Some:
  "search R S i = Some (j, ps) \<Longrightarrow>
     i \<le> j \<and> j \<le> length S \<and> backtrack (ignoreCase R) (source R) (drop j S) = Some ps \<and>
     (\<forall>k. i \<le> k \<and> k < j \<longrightarrow> backtrack (ignoreCase R) (source R) (drop k S) = None)"
proof (induction R S i rule: search.induct)
  case (1 R S i)
  note step = search.simps [of R S i]
  have inside: "\<not> length S < i"
    using "1.prems" step by auto
  show ?case
  proof (cases "backtrack (ignoreCase R) (source R) (drop i S)")
    case None
    then have rec: "search R S (Suc i) = Some (j, ps)"
      using "1.prems" inside step by auto
    from "1.IH" [OF inside None rec]
    have ih: "Suc i \<le> j" "j \<le> length S"
      "backtrack (ignoreCase R) (source R) (drop j S) = Some ps"
      "\<And>k. Suc i \<le> k \<Longrightarrow> k < j \<Longrightarrow> backtrack (ignoreCase R) (source R) (drop k S) = None"
      by simp_all
    have "backtrack (ignoreCase R) (source R) (drop k S) = None" if "i \<le> k" "k < j" for k
    proof (cases "k = i")
      case True
      with None show ?thesis by simp
    next
      case False
      with that have "Suc i \<le> k" by simp
      with ih(4) that show ?thesis by simp
    qed
    with ih show ?thesis by simp
  next
    case (Some qs)
    with "1.prems" inside step have "j = i" "qs = ps" by auto
    with Some inside show ?thesis by auto
  qed
qed

lemma search_None:
  "search R S i = None \<Longrightarrow> i \<le> k \<Longrightarrow> k \<le> length S \<Longrightarrow>
     backtrack (ignoreCase R) (source R) (drop k S) = None"
proof (induction R S i rule: search.induct)
  case (1 R S i)
  note step = search.simps [of R S i]
  from 1(3,4) have inside: "\<not> length S < i" by simp
  with "1.prems"(1) step have here: "backtrack (ignoreCase R) (source R) (drop i S) = None"
    by (auto split: option.splits)
  with "1.prems"(1) step inside have rec: "search R S (Suc i) = None" by simp
  show ?case
  proof (cases "k = i")
    case True
    with here show ?thesis by simp
  next
    case False
    with 1(3) have "Suc i \<le> k" by simp
    from "1.IH" [OF inside here rec this 1(4)] show ?thesis .
  qed
qed

lemma backtrack_prefix:
  "backtrack ic ts s = Some ps \<Longrightarrow> \<exists>r. s = concat ps @ r"
proof (induction ic ts s arbitrary: ps rule: backtrack.induct)
  case (5 ic g cl ts c cs)
  then show ?case
    by (fastforce split: if_splits option.splits list.splits)
next
  case (7 ic g cl ts c cs)
  then show ?case
    by (fastforce split: if_splits option.splits list.splits)
qed (auto split: if_splits)


lemma substring_from_drop: "substring_from s a = drop a s"
  by (simp add: substring_from_def substring_def Let_def min_def max_def)

lemma backtrack_length:
  "backtrack ic ts s = Some ps \<Longrightarrow> length ps = length ts"
proof (induction ic ts s arbitrary: ps rule: backtrack.induct)
  case (5 ic g cl ts c cs)
  then show ?case
    by (fastforce split: if_splits option.splits list.splits)
next
  case (7 ic g cl ts c cs)
  then show ?case
    by (fastforce split: if_splits option.splits list.splits)
qed (auto split: if_splits)

lemma substring_take_drop: "a \<le> b \<Longrightarrow> b \<le> length s \<Longrightarrow> substring s a b = take (b - a) (drop a s)"
  by (simp add: substring_def Let_def min_def max_def)


lemma exec_slot_Some:
  assumes "exec (slotNamePattern\<lparr>lastIndex := rli\<rparr>) t = (Some m, R)"
  shows "rli \<le> index m \<and> lastIndex R = index m + length (matched m) \<and> lastIndex R \<le> length t \<and>
         matched m = take (length (matched m)) (drop (index m) t) \<and> (\<exists>name. captures m = [name])"
proof -
  from assms obtain j ps where s: "search (slotNamePattern\<lparr>lastIndex := rli\<rparr>) t rli = Some (j, ps)"
    and m: "index m = j" "matched m = concat ps" and R: "lastIndex R = j + length (concat ps)"
    and c: "captures m = map snd (filter (\<lambda>(t, p). capturing t) (zip (source slotNamePattern) ps))"
    by (auto simp: exec_def slotNamePattern_def split: option.splits)
  from search_Some [OF s] have le: "rli \<le> j" "j \<le> length t"
    and bt: "backtrack True (source slotNamePattern) (drop j t) = Some ps"
    by (simp_all add: slotNamePattern_def)
  from backtrack_prefix [OF bt] obtain r where r: "drop j t = concat ps @ r" ..
  then have "length (drop j t) = length (concat ps) + length r"
    by (metis length_append)
  with le have "j + length (concat ps) \<le> length t" by simp
  moreover from backtrack_length [OF bt] obtain p0 p1 p2 p3 p4 where "ps = [p0, p1, p2, p3, p4]"
    by (auto simp: slotNamePattern_def length_Suc_conv)
  with c have "captures m = [p2]"
    by (simp add: slotNamePattern_def)
  ultimately show ?thesis
    using le m R r by simp
qed

lemma segments_loop_text:
  "li \<le> rli \<Longrightarrow> concat (map segment_text (segments_loop t rli li)) = drop li t"
proof (induction t rli li rule: segments_loop.induct)
  case (1 t rli li)
  obtain r R where e: "exec (slotNamePattern\<lparr>lastIndex := rli\<rparr>) t = (r, R)"
    by (cases "exec (slotNamePattern\<lparr>lastIndex := rli\<rparr>) t")
  show ?case
  proof (cases r)
    case None
    with e show ?thesis
      by (simp add: segments_loop.simps [of t rli li] substring_from_drop)
  next
    case (Some m)
    from exec_slot_Some [OF e [unfolded Some]]
    have i: "rli \<le> index m" and R: "lastIndex R = index m + length (matched m)"
      and len: "lastIndex R \<le> length t"
      and mt: "matched m = take (length (matched m)) (drop (index m) t)"
      by simp_all
    from "1.IH" [OF e [symmetric] Some] have ih:
      "concat (map segment_text (segments_loop t (lastIndex R) (lastIndex R))) = drop (lastIndex R) t"
      by simp
    from i "1.prems" len R have lit: "substring t li (index m) = take (index m - li) (drop li t)"
      by (simp add: substring_take_drop)
    have "drop li t = take (index m - li) (drop li t) @ drop (index m) t"
      using i "1.prems"
      by (metis append_take_drop_id drop_drop le_add_diff_inverse2 le_trans)
    also have "drop (index m) t = matched m @ drop (lastIndex R) t"
      using mt R by (metis add.commute append_take_drop_id drop_drop)
    finally show ?thesis
      using e Some ih lit by (simp add: segments_loop.simps [of t rli li])
  qed
qed

lemma render_loop_segments:
  "fst (render_loop t slots rli li result) =
     (case fill_all slots (segments_loop t rli li) of
        Inl e \<Rightarrow> Inl e
      | Inr pushed \<Rightarrow> Inr (result @ pushed))"
proof (induction t slots rli li result rule: render_loop.induct)
  case (1 t slots rli li result)
  obtain r R where e: "exec (slotNamePattern\<lparr>lastIndex := rli\<rparr>) t = (r, R)"
    by (cases "exec (slotNamePattern\<lparr>lastIndex := rli\<rparr>) t")
  show ?case
  proof (cases r)
    case None
    with e show ?thesis
      by (simp add: segments_loop.simps [of t rli li] render_loop.simps [of t slots rli li result])
  next
    case (Some m)
    from exec_slot_Some [OF e [unfolded Some]] obtain name where c: "captures m = [name]"
      by auto
    define contribution where
      "contribution = (case slot_of slots m of Some slot \<Rightarrow> slot () | None \<Rightarrow> Inr [Text (matched m)])"
    have f: "fill slots (SlotReference name (matched m)) = contribution"
      by (simp add: contribution_def slot_of_def c)
    show ?thesis
    proof (cases contribution)
      case (Inl err)
      with e Some c f show ?thesis
        by (simp add: segments_loop.simps [of t rli li] render_loop.simps [of t slots rli li result]
            contribution_def [symmetric])
    next
      case (Inr pushed)
      from "1.IH" [OF e [symmetric] Some Inr [unfolded contribution_def]] e Some c f Inr show ?thesis
        by (simp add: segments_loop.simps [of t rli li] render_loop.simps [of t slots rli li result]
            contribution_def [symmetric] split: sum.splits)
    qed
  qed
qed


lemma upper_eq: "to_upper c = a \<longleftrightarrow> (if 0x61 \<le> c \<and> c \<le> 0x7A then c = a + 0x20 else c = a)"
  by (auto simp: to_upper_def)

lemma lower_eq: "to_lower c = a \<longleftrightarrow> (if 0x41 \<le> c \<and> c \<le> 0x5A then c = a - 0x20 else c = a)"
  by (auto simp: to_lower_def)

lemma member_open: "class_member True [Single 0x7B] c \<longleftrightarrow> c = 0x7B"
  by (auto simp: class_member_def upper_eq lower_eq split: if_splits)

lemma member_close: "class_member True [Single 0x7D] c \<longleftrightarrow> c = 0x7D"
  by (auto simp: class_member_def upper_eq lower_eq split: if_splits)

lemma member_space: "class_member ic [WhiteSpace] c \<longleftrightarrow> is_white_space c"
  by (simp add: class_member_def)

lemma unat_upper:
  "unat (to_upper c) = (if 97 \<le> unat c \<and> unat c \<le> 122 then unat c - 32 else unat c)"
  by (auto simp: to_upper_def word_le_nat_alt unat_sub)

lemma unat_lower:
  "unat (to_lower c) = (if 65 \<le> unat c \<and> unat c \<le> 90 then unat c + 32 else unat c)"
  by (auto simp: to_lower_def word_le_nat_alt unat_word_ariths)

lemma member_name:
  "class_member True [CharRange 0x61 0x7A, CharRange 0x30 0x39, Single 0x2D] c \<longleftrightarrow> is_name_char c"
  by (auto simp: class_member_def is_name_char_def word_le_nat_alt word_unat_eq_iff
      unat_upper unat_lower split: if_splits)

lemma space_not_name: "is_white_space c \<Longrightarrow> \<not> is_name_char c"
  unfolding is_white_space_def is_name_char_def
  by (auto simp: word_le_nat_alt)

lemma space_not_brace: "is_white_space c \<Longrightarrow> c \<noteq> 0x7B \<and> c \<noteq> 0x7D"
  unfolding is_white_space_def
  by (auto simp: word_le_nat_alt)

lemma name_not_brace: "is_name_char c \<Longrightarrow> c \<noteq> 0x7B \<and> c \<noteq> 0x7D"
  unfolding is_name_char_def
  by (auto simp: word_le_nat_alt)

text \<open>A greedy repetition never hands a code unit of its class to terms that refuse it.\<close>

lemma star_greedy:
  assumes "\<And>c cs. class_member ic cl c \<Longrightarrow> backtrack ic ts (c # cs) = None"
  shows "backtrack ic (Term g cl ZeroOrMore # ts) s =
           map_option (\<lambda>ps. takeWhile (class_member ic cl) s # ps)
             (backtrack ic ts (dropWhile (class_member ic cl) s))"
proof (induction s)
  case Nil
  show ?case by simp
next
  case (Cons c cs)
  show ?case
  proof (cases "class_member ic cl c")
    case True
    with Cons assms [OF True, where cs = cs] show ?thesis
      by (cases "backtrack ic ts (dropWhile (class_member ic cl) cs)") simp_all
  next
    case False
    then show ?thesis by simp
  qed
qed

lemma plus_greedy:
  assumes "\<And>c cs. class_member ic cl c \<Longrightarrow> backtrack ic ts (c # cs) = None"
  shows "backtrack ic (Term g cl OneOrMore # ts) s =
           (if takeWhile (class_member ic cl) s = [] then None
            else map_option (\<lambda>ps. takeWhile (class_member ic cl) s # ps)
                   (backtrack ic ts (dropWhile (class_member ic cl) s)))"
proof (cases s)
  case Nil
  then show ?thesis by simp
next
  case (Cons c cs)
  show ?thesis
  proof (cases "class_member ic cl c")
    case True
    with Cons star_greedy [OF assms, where g = g and s = cs] show ?thesis
      by (cases "backtrack ic ts (dropWhile (class_member ic cl) cs)") simp_all
  next
    case False
    with Cons show ?thesis by simp
  qed
qed


lemma space_fun: "class_member True [WhiteSpace] = is_white_space"
  by (rule ext) (simp add: member_space)

lemma name_fun: "class_member True [CharRange 0x61 0x7A, CharRange 0x30 0x39, Single 0x2D] = is_name_char"
  by (rule ext) (simp add: member_name)

text \<open>The match of \<open>slotNamePattern\<close> at the head of a string, in closed form.\<close>

lemma match_close:
  "backtrack True [Term False [Single 0x7D] Once] s =
     (case s of [] \<Rightarrow> None | d # r \<Rightarrow> if d = 0x7D then Some [[d]] else None)"
  by (cases s) (simp_all add: member_close)

lemma match_tail:
  "backtrack True [Term False [WhiteSpace] ZeroOrMore, Term False [Single 0x7D] Once] s =
     map_option (\<lambda>ps. takeWhile is_white_space s # ps)
       (backtrack True [Term False [Single 0x7D] Once] (dropWhile is_white_space s))"
  using star_greedy [where ic = True and cl = "[WhiteSpace]" and ts = "[Term False [Single 0x7D] Once]"
      and g = False and s = s]
  by (simp add: space_fun member_close space_not_brace)

lemma match_name:
  "backtrack True [Term True [CharRange 0x61 0x7A, CharRange 0x30 0x39, Single 0x2D] OneOrMore,
       Term False [WhiteSpace] ZeroOrMore, Term False [Single 0x7D] Once] s =
     (if takeWhile is_name_char s = [] then None
      else map_option (\<lambda>ps. takeWhile is_name_char s # ps)
             (backtrack True [Term False [WhiteSpace] ZeroOrMore, Term False [Single 0x7D] Once]
                (dropWhile is_name_char s)))"
proof -
  have "backtrack True [Term False [WhiteSpace] ZeroOrMore, Term False [Single 0x7D] Once] (c # cs) = None"
    if "class_member True [CharRange 0x61 0x7A, CharRange 0x30 0x39, Single 0x2D] c" for c cs
  proof -
    from that have "is_name_char c" by (simp add: member_name)
    then have "\<not> is_white_space c" "c \<noteq> 0x7D"
      using space_not_name name_not_brace by blast+
    then show ?thesis
      unfolding match_tail match_close by simp
  qed
  from plus_greedy [where ic = True and g = True and s = s
      and cl = "[CharRange 0x61 0x7A, CharRange 0x30 0x39, Single 0x2D]"
      and ts = "[Term False [WhiteSpace] ZeroOrMore, Term False [Single 0x7D] Once]", OF this]
  show ?thesis
    by (simp only: name_fun)
qed

lemma match_slot:
  "backtrack True (source slotNamePattern) s =
     (case s of
        [] \<Rightarrow> None
      | c # r \<Rightarrow>
          if c = 0x7B then
            map_option (\<lambda>ps. [c] # takeWhile is_white_space r # ps)
              (backtrack True [Term True [CharRange 0x61 0x7A, CharRange 0x30 0x39, Single 0x2D] OneOrMore,
                  Term False [WhiteSpace] ZeroOrMore, Term False [Single 0x7D] Once]
                 (dropWhile is_white_space r))
          else None)"
proof (cases s)
  case Nil
  then show ?thesis by (simp add: slotNamePattern_def)
next
  case (Cons c r)
  have refuse: "backtrack True [Term True [CharRange 0x61 0x7A, CharRange 0x30 0x39, Single 0x2D] OneOrMore,
       Term False [WhiteSpace] ZeroOrMore, Term False [Single 0x7D] Once] (d # ds) = None"
    if "class_member True [WhiteSpace] d" for d ds
    using that space_not_name [of d] by (simp add: member_space member_name)
  have "backtrack True (Term False [WhiteSpace] ZeroOrMore #
          [Term True [CharRange 0x61 0x7A, CharRange 0x30 0x39, Single 0x2D] OneOrMore,
           Term False [WhiteSpace] ZeroOrMore, Term False [Single 0x7D] Once]) r =
        map_option (\<lambda>ps. takeWhile is_white_space r # ps)
          (backtrack True [Term True [CharRange 0x61 0x7A, CharRange 0x30 0x39, Single 0x2D] OneOrMore,
             Term False [WhiteSpace] ZeroOrMore, Term False [Single 0x7D] Once]
            (dropWhile is_white_space r))"
    using star_greedy [where ic = True and g = False and s = r and cl = "[WhiteSpace]"
        and ts = "[Term True [CharRange 0x61 0x7A, CharRange 0x30 0x39, Single 0x2D] OneOrMore,
           Term False [WhiteSpace] ZeroOrMore, Term False [Single 0x7D] Once]", OF refuse]
    by (simp only: space_fun)
  with Cons show ?thesis
    by (simp add: slotNamePattern_def member_open option.map_comp comp_def)
qed

lemma takeWhile_run: "list_all P xs \<Longrightarrow> (ys \<noteq> [] \<Longrightarrow> \<not> P (hd ys)) \<Longrightarrow> takeWhile P (xs @ ys) = xs"
  by (cases ys) (auto simp: list_all_iff takeWhile_append2 intro: takeWhile_eq_all_conv [THEN iffD2])

lemma dropWhile_run: "list_all P xs \<Longrightarrow> (ys \<noteq> [] \<Longrightarrow> \<not> P (hd ys)) \<Longrightarrow> dropWhile P (xs @ ys) = ys"
  by (cases ys) (auto simp: list_all_iff dropWhile_append2)

lemma match_slot_iff:
  "backtrack True (source slotNamePattern) s = Some ps \<longleftrightarrow>
     (\<exists>ws1 nm ws2 r. s = [0x7B] @ ws1 @ nm @ ws2 @ [0x7D] @ r \<and> list_all is_white_space ws1 \<and>
        list_all is_white_space ws2 \<and> nm \<noteq> [] \<and> list_all is_name_char nm \<and>
        ps = [[0x7B], ws1, nm, ws2, [0x7D]])"
  (is "?L \<longleftrightarrow> ?R")
proof
  assume ?L
  then obtain r where s: "s = 0x7B # r" 
    by (cases s) (auto simp: match_slot split: if_splits)
  define ws1 where "ws1 = takeWhile is_white_space r"
  define r1 where "r1 = dropWhile is_white_space r"
  define nm where "nm = takeWhile is_name_char r1"
  define r2 where "r2 = dropWhile is_name_char r1"
  define ws2 where "ws2 = takeWhile is_white_space r2"
  define r3 where "r3 = dropWhile is_white_space r2"
  from \<open>?L\<close> s have nm: "nm \<noteq> []" and "\<exists>r4. r3 = 0x7D # r4" and ps: "ps = [[0x7B], ws1, nm, ws2, [0x7D]]"
    unfolding ws1_def r1_def nm_def r2_def ws2_def r3_def
    by (auto simp: match_slot match_name match_tail match_close split: if_splits list.splits)
  then obtain r4 where r3: "r3 = 0x7D # r4" by blast
  have "r = ws1 @ r1" "r1 = nm @ r2" "r2 = ws2 @ r3"
    by (simp_all add: ws1_def r1_def nm_def r2_def ws2_def r3_def)
  with s r3 have "s = [0x7B] @ ws1 @ nm @ ws2 @ [0x7D] @ r4" by simp
  moreover have "list_all is_white_space ws1" "list_all is_white_space ws2" "list_all is_name_char nm"
    by (auto simp: ws1_def ws2_def nm_def list_all_iff dest: set_takeWhileD)
  ultimately show ?R using nm ps by blast
next
  assume ?R
  then obtain ws1 nm ws2 r where s: "s = [0x7B] @ ws1 @ nm @ ws2 @ [0x7D] @ r"
    and w1: "list_all is_white_space ws1" and w2: "list_all is_white_space ws2"
    and nm: "nm \<noteq> []" "list_all is_name_char nm" and ps: "ps = [[0x7B], ws1, nm, ws2, [0x7D]]"
    by blast
  from nm have hd: "is_name_char (hd nm)" by (cases nm) simp_all
  then have nsp: "\<not> is_white_space (hd (nm @ ws2 @ 0x7D # r))"
    using nm space_not_name by auto
  have nnm: "\<not> is_name_char (hd (ws2 @ 0x7D # r))"
  proof (cases ws2)
    case Nil
    then show ?thesis using name_not_brace by auto
  next
    case (Cons a as)
    with w2 show ?thesis using space_not_name by auto
  qed
  have nsp2: "\<not> is_white_space (hd (0x7D # r))"
    using space_not_brace by auto
  have t1: "takeWhile is_white_space (ws1 @ nm @ ws2 @ 0x7D # r) = ws1"
    and d1: "dropWhile is_white_space (ws1 @ nm @ ws2 @ 0x7D # r) = nm @ ws2 @ 0x7D # r"
    using w1 nsp by (simp_all add: takeWhile_run dropWhile_run)
  have t2: "takeWhile is_name_char (nm @ ws2 @ 0x7D # r) = nm"
    and d2: "dropWhile is_name_char (nm @ ws2 @ 0x7D # r) = ws2 @ 0x7D # r"
    using nm nnm by (simp_all add: takeWhile_run dropWhile_run)
  have t3: "takeWhile is_white_space (ws2 @ 0x7D # r) = ws2"
    and d3: "dropWhile is_white_space (ws2 @ 0x7D # r) = 0x7D # r"
    using w2 nsp2 by (simp_all add: takeWhile_run dropWhile_run)
  from s have "s = 0x7B # ws1 @ nm @ ws2 @ 0x7D # r" by simp
  then show ?L
    unfolding ps using nm(1)
    by (simp add: match_slot match_name match_tail match_close member_close t1 d1 t2 d2 t3 d3)
qed


lemma no_match_inside:
  assumes m: "backtrack True (source slotNamePattern) (drop j t) = Some ps"
    and k: "j < k" "k < j + length (concat ps)"
  shows "backtrack True (source slotNamePattern) (drop k t) = None"
proof -
  from m obtain ws1 nm ws2 r where t: "drop j t = [0x7B] @ ws1 @ nm @ ws2 @ [0x7D] @ r"
    and cl: "list_all is_white_space ws1" "list_all is_white_space ws2" "list_all is_name_char nm"
    and ps: "ps = [[0x7B], ws1, nm, ws2, [0x7D]]"
    unfolding match_slot_iff by blast
  define body where "body = ws1 @ nm @ ws2 @ [0x7D]"
  have nb: "c \<noteq> 0x7B" if "c \<in> set body" for c
    using that cl space_not_brace [of c] name_not_brace [of c] by (auto simp: body_def list_all_iff)
  define d where "d = k - Suc j"
  from k ps have d: "d < length body" "k = j + Suc d"
    by (simp_all add: d_def body_def)
  have "drop k t = drop (Suc d) (drop j t)"
    using d(2) by (simp add: add.commute)
  also have "\<dots> = drop d body @ r"
    using t d(1) by (simp add: body_def)
  also have "drop d body = body ! d # drop (Suc d) body"
    using d(1) by (simp add: Cons_nth_drop_Suc)
  finally have "drop k t = body ! d # drop (Suc d) body @ r" by simp
  moreover have "body ! d \<noteq> 0x7B"
    using d(1) nb by simp
  ultimately show ?thesis
    by (simp add: match_slot)
qed

lemma exec_slot_search:
  "exec (slotNamePattern\<lparr>lastIndex := p\<rparr>) t =
     (case search slotNamePattern t p of
        None \<Rightarrow> (None, slotNamePattern)
      | Some (i, ps) \<Rightarrow>
          (Some \<lparr>index = i, matched = concat ps, captures = [ps ! 2]\<rparr>,
           slotNamePattern\<lparr>lastIndex := i + length (concat ps)\<rparr>))"
proof -
  have same: "search (slotNamePattern\<lparr>lastIndex := p\<rparr>) S i = search slotNamePattern S i" for S i
    by (induction "slotNamePattern\<lparr>lastIndex := p\<rparr>" S i rule: search.induct)
      (simp add: search.simps [of "slotNamePattern\<lparr>lastIndex := p\<rparr>"] search.simps [of slotNamePattern]
        split: option.splits)
  show ?thesis
  proof (cases "search slotNamePattern t p")
    case None
    then show ?thesis
      by (simp add: exec_def same) (simp add: slotNamePattern_def)
  next
    case (Some a)
    obtain i ps where a: "a = (i, ps)" by (cases a)
    from search_Some [OF Some [unfolded a]]
    have "backtrack True (source slotNamePattern) (drop i t) = Some ps"
      by (simp add: slotNamePattern_def)
    from backtrack_length [OF this] obtain p0 p1 p2 p3 p4 where "ps = [p0, p1, p2, p3, p4]"
      by (auto simp: slotNamePattern_def length_Suc_conv)
    with Some a show ?thesis
      by (simp add: exec_def same) (simp add: slotNamePattern_def)
  qed
qed

lemma slot_references:
  "SlotReference nm w \<in> set (segments_loop t p li) \<longleftrightarrow>
     (\<exists>j ps. p \<le> j \<and> j \<le> length t \<and>
        backtrack True (source slotNamePattern) (drop j t) = Some ps \<and> w = concat ps \<and> nm = ps ! 2)"
proof (induction t p li rule: segments_loop.induct)
  case (1 t p li)
  have ic: "ignoreCase slotNamePattern = True" by (simp add: slotNamePattern_def)
  show ?case
  proof (cases "search slotNamePattern t p")
    case None
    from search_None [OF None] have "backtrack True (source slotNamePattern) (drop j t) = None"
      if "p \<le> j" "j \<le> length t" for j
      using that ic by simp
    then have "\<not> (\<exists>j ps. p \<le> j \<and> j \<le> length t \<and>
        backtrack True (source slotNamePattern) (drop j t) = Some ps \<and> w = concat ps \<and> nm = ps ! 2)"
      by auto
    with None show ?thesis
      by (simp add: segments_loop.simps [of t p li] exec_slot_search)
  next
    case (Some a)
    obtain i ps where a: "a = (i, ps)" by (cases a)
    define e where "e = i + length (concat ps)"
    from search_Some [OF Some [unfolded a]] ic
    have i: "p \<le> i" "i \<le> length t" and m: "backtrack True (source slotNamePattern) (drop i t) = Some ps"
      and least: "\<And>k. p \<le> k \<Longrightarrow> k < i \<Longrightarrow> backtrack True (source slotNamePattern) (drop k t) = None"
      by simp_all
    have ex: "exec (slotNamePattern\<lparr>lastIndex := p\<rparr>) t =
        (Some \<lparr>index = i, matched = concat ps, captures = [ps ! 2]\<rparr>, slotNamePattern\<lparr>lastIndex := e\<rparr>)"
      using Some a by (simp add: exec_slot_search e_def)
    from "1.IH" [OF ex [symmetric] refl] have ih:
      "SlotReference nm w \<in> set (segments_loop t e e) \<longleftrightarrow>
         (\<exists>j qs. e \<le> j \<and> j \<le> length t \<and>
            backtrack True (source slotNamePattern) (drop j t) = Some qs \<and> w = concat qs \<and> nm = qs ! 2)"
      by simp
    have unfold: "SlotReference nm w \<in> set (segments_loop t p li) \<longleftrightarrow>
        (nm = ps ! 2 \<and> w = concat ps) \<or> SlotReference nm w \<in> set (segments_loop t e e)"
      using ex by (simp add: segments_loop.simps [of t p li])
    have "(\<exists>j qs. p \<le> j \<and> j \<le> length t \<and>
            backtrack True (source slotNamePattern) (drop j t) = Some qs \<and> w = concat qs \<and> nm = qs ! 2) \<longleftrightarrow>
          (nm = ps ! 2 \<and> w = concat ps) \<or>
          (\<exists>j qs. e \<le> j \<and> j \<le> length t \<and>
            backtrack True (source slotNamePattern) (drop j t) = Some qs \<and> w = concat qs \<and> nm = qs ! 2)"
      (is "?A \<longleftrightarrow> ?B \<or> ?C")
    proof
      assume ?A
      then obtain j qs where j: "p \<le> j" "j \<le> length t"
        and q: "backtrack True (source slotNamePattern) (drop j t) = Some qs" "w = concat qs" "nm = qs ! 2"
        by blast
      from least [OF j(1)] q(1) have "i \<le> j" by (cases "j < i") simp_all
      show "?B \<or> ?C"
      proof (cases "j = i")
        case True
        with q m show ?thesis by simp
      next
        case False
        with \<open>i \<le> j\<close> have "i < j" by simp
        from no_match_inside [OF m this] q(1) have "e \<le> j"
          by (cases "j < e") (simp_all add: e_def)
        with j q show ?thesis by blast
      qed
    next
      assume "?B \<or> ?C"
      then show ?A
      proof
        assume ?B
        with i m show ?A by blast
      next
        assume ?C
        then obtain j qs where "e \<le> j" "j \<le> length t"
          "backtrack True (source slotNamePattern) (drop j t) = Some qs" "w = concat qs" "nm = qs ! 2"
          by blast
        moreover from this(1) i(1) have "p \<le> j" by (simp add: e_def)
        ultimately show ?A by blast
      qed
    qed
    with unfold ih show ?thesis by simp
  qed
qed

lemma match_slot_text:
  assumes "backtrack True (source slotNamePattern) s = Some ps"
  shows "slot_text is_name_char (ps ! 2) (concat ps)"
proof -
  from assms obtain ws1 nm ws2 r where "list_all is_white_space ws1" "list_all is_white_space ws2"
    "nm \<noteq> []" "list_all is_name_char nm" and ps: "ps = [[0x7B], ws1, nm, ws2, [0x7D]]"
    unfolding match_slot_iff by blast
  then show ?thesis
    unfolding slot_text_def by (intro exI [of _ ws1] exI [of _ ws2]) simp
qed

lemma render_fill: "fst (render t slots 0) = fill_all slots (segments t)"
  by (cases "fill_all slots (segments t)")
    (simp_all add: render_def segments_def render_loop_segments)


lemma fill_all_Inr:
  "fill_all slots segs = Inr out \<longleftrightarrow>
     (\<exists>parts. map (fill slots) segs = map Inr parts \<and> out = concat parts)"
proof (induction segs arbitrary: out)
  case Nil
  show ?case by auto
next
  case (Cons seg segs)
  show ?case
  proof (cases "fill slots seg")
    case (Inl e)
    then show ?thesis by (auto simp: map_eq_Cons_conv)
  next
    case p: (Inr pushed)
    show ?thesis
    proof (cases "fill_all slots segs")
      case (Inl e)
      with Cons.IH have "\<nexists>parts. map (fill slots) segs = map Inr parts"
        by (metis sum.distinct(1))
      with p Inl show ?thesis by (auto simp: map_eq_Cons_conv)
    next
      case (Inr others)
      with Cons.IH [of others] obtain parts where parts: "map (fill slots) segs = map Inr parts"
        "others = concat parts"
        by blast
      show ?thesis
      proof
        assume "fill_all slots (seg # segs) = Inr out"
        with p Inr have "out = pushed @ others" by simp
        with p parts have "map (fill slots) (seg # segs) = map Inr (pushed # parts)"
          "out = concat (pushed # parts)"
          by simp_all
        then show "\<exists>parts. map (fill slots) (seg # segs) = map Inr parts \<and> out = concat parts"
          by blast
      next
        assume "\<exists>parts. map (fill slots) (seg # segs) = map Inr parts \<and> out = concat parts"
        then obtain qs where qs: "map (fill slots) (seg # segs) = map Inr qs" "out = concat qs"
          by blast
        then obtain q qs' where q: "qs = q # qs'" "fill slots seg = Inr q"
          "map (fill slots) segs = map Inr qs'"
          by (auto simp: map_eq_Cons_conv)
        with Cons.IH [of "concat qs'"] have "fill_all slots segs = Inr (concat qs')" by blast
        with q qs show "fill_all slots (seg # segs) = Inr out" by simp
      qed
    qed
  qed
qed

lemma fill_all_nothing_found:
  "(\<And>name. get_property slots name = None) \<Longrightarrow>
     fill_all slots segs = Inr (map Text (map segment_text segs))"
proof (induction segs)
  case Nil
  show ?case by simp
next
  case (Cons seg segs)
  then show ?case by (cases seg) simp_all
qed


lemma segments_chain:
  "li \<le> p \<Longrightarrow> \<exists>ms. chain t li ms \<and> segments_loop t p li = assemble t li ms"
proof (induction t p li rule: segments_loop.induct)
  case (1 t p li)
  have ic: "ignoreCase slotNamePattern = True" by (simp add: slotNamePattern_def)
  show ?case
  proof (cases "search slotNamePattern t p")
    case None
    then have "segments_loop t p li = assemble t li []"
      by (simp add: segments_loop.simps [of t p li] exec_slot_search substring_from_drop)
    then show ?thesis
      by (intro exI [of _ "[]"]) simp
  next
    case (Some a)
    obtain i ps where a: "a = (i, ps)" by (cases a)
    define e where "e = i + length (concat ps)"
    from search_Some [OF Some [unfolded a]] ic
    have i: "p \<le> i" "i \<le> length t" and m: "backtrack True (source slotNamePattern) (drop i t) = Some ps"
      by simp_all
    from backtrack_prefix [OF m] obtain r where r: "drop i t = concat ps @ r" ..
    then have "length (drop i t) = length (concat ps) + length r"
      by (metis length_append)
    with i have e: "e \<le> length t" by (simp add: e_def)
    from r have w: "concat ps = take (length (concat ps)) (drop i t)" by simp
    have ex: "exec (slotNamePattern\<lparr>lastIndex := p\<rparr>) t =
        (Some \<lparr>index = i, matched = concat ps, captures = [ps ! 2]\<rparr>, slotNamePattern\<lparr>lastIndex := e\<rparr>)"
      using Some a by (simp add: exec_slot_search e_def)
    from "1.IH" [OF ex [symmetric] refl] obtain ms where ms: "chain t e ms"
      "segments_loop t e e = assemble t e ms"
      by auto
    from i "1.prems" have lit: "substring t li i = take (i - li) (drop li t)"
      by (simp add: substring_take_drop)
    have "chain t li ((i, ps ! 2, concat ps) # ms)"
      using i "1.prems" e w ms(1) match_slot_text [OF m] by (simp add: e_def)
    moreover have "segments_loop t p li = assemble t li ((i, ps ! 2, concat ps) # ms)"
      using ex ms(2) lit by (simp add: segments_loop.simps [of t p li] e_def)
    ultimately show ?thesis by blast
  qed
qed

lemma length_assemble: "length (assemble t li ms) = 2 * length ms + 1"
  by (induction t li ms rule: assemble.induct) simp_all

lemma search_no_match:
  assumes "\<And>j. backtrack (ignoreCase R) (source R) (drop j S) = None"
  shows "search R S i = None"
  using assms
proof (induction R S i rule: search.induct)
  case (1 R S i)
  from "1.prems" have here: "backtrack (ignoreCase R) (source R) (drop i S) = None" by simp
  show ?case
  proof (cases "length S < i")
    case True
    then show ?thesis by (simp add: search.simps [of R S i])
  next
    case False
    from "1.IH" [OF False here "1.prems"] here False show ?thesis
      by (simp add: search.simps [of R S i])
  qed
qed

lemma no_slot_segments:
  assumes "\<not> (\<exists>pre nm w post. t = pre @ w @ post \<and> slot_text is_name_char nm w)"
  shows "segments t = [Literal t]"
proof -
  have "backtrack True (source slotNamePattern) (drop j t) = None" for j
  proof (cases "backtrack True (source slotNamePattern) (drop j t)")
    case None
    then show ?thesis .
  next
    case (Some ps)
    from backtrack_prefix [OF Some] obtain r where "drop j t = concat ps @ r" ..
    then have "t = take j t @ concat ps @ r"
      by (metis append_take_drop_id)
    with match_slot_text [OF Some] assms show ?thesis by blast
  qed
  then have "search slotNamePattern t 0 = None"
    by (intro search_no_match) (simp add: slotNamePattern_def)
  then show ?thesis
    by (simp add: segments_def segments_loop.simps [of t 0 0] exec_slot_search substring_from_drop)
qed

section \<open>The interpolation parser\<close>

text \<open>
  C1.  For every translation, and whatever value the pattern's \<open>lastIndex\<close> has when the
  render starts, the texts of the parsed segments (a literal verbatim, a slot reference
  by its matched text) concatenate to the translation; and the render function, when no
  property of the slots object is found for any name, returns strings only, which
  concatenate to the translation.
\<close>

theorem round_trip:
  "concat (map segment_text (segments_loop t rli 0)) = t \<and>
   (\<exists>texts. fst (render t \<lparr>own = (\<lambda>name. None), proto = (\<lambda>name. None)\<rparr> rli) = Inr (map Text texts) \<and>
      concat texts = t)"
proof
  show rt: "concat (map segment_text (segments_loop t rli 0)) = t"
    using segments_loop_text [of 0 rli t] by simp
  have f: "fill_all \<lparr>own = (\<lambda>name. None), proto = (\<lambda>name. None)\<rparr> (segments_loop t rli 0) =
      Inr (map Text (map segment_text (segments_loop t rli 0)))"
    by (rule fill_all_nothing_found) (simp add: get_property_def)
  have "fst (render t \<lparr>own = (\<lambda>name. None), proto = (\<lambda>name. None)\<rparr> rli) =
      Inr (map Text (map segment_text (segments_loop t rli 0)))"
    unfolding render_def render_loop_segments f by simp
  then show "\<exists>texts. fst (render t \<lparr>own = (\<lambda>name. None), proto = (\<lambda>name. None)\<rparr> rli) =
      Inr (map Text texts) \<and> concat texts = t"
    using rt by blast
qed

theorem round_trip_witness:
  "segments (js ''a{ b }c'') = [Literal (js ''a''), SlotReference (js ''b'') (js ''{ b }''), Literal (js ''c'')] \<and>
   concat (map segment_text (segments_loop (js ''a{ b }c'') 0 0)) = js ''a{ b }c''"
proof
  show "segments (js ''a{ b }c'') = [Literal (js ''a''), SlotReference (js ''b'') (js ''{ b }''), Literal (js ''c'')]"
    by code_simp
  show "concat (map segment_text (segments_loop (js ''a{ b }c'') 0 0)) = js ''a{ b }c''"
    by (rule conjunct1 [OF round_trip])
qed

text \<open>
  C6.  As stated, with names of lowercase letters, digits and hyphens only, the claim
  fails: the pattern carries flag \<open>i\<close>, and \<open>{Name}\<close> is recognised as a slot.
\<close>

theorem lowercase_name_counterexample:
  "SlotReference (js ''Name'') (js ''{Name}'') \<in> set (segments (js ''{Name}'')) \<and>
   \<not> slot_text is_lower_name_char (js ''Name'') (js ''{Name}'')"
proof
  have "segments (js ''{Name}'') = [Literal [], SlotReference (js ''Name'') (js ''{Name}''), Literal []]"
    by code_simp
  then show "SlotReference (js ''Name'') (js ''{Name}'') \<in> set (segments (js ''{Name}''))"
    by simp
  show "\<not> slot_text is_lower_name_char (js ''Name'') (js ''{Name}'')"
    by (simp add: slot_text_def js_def is_lower_name_char_def)
qed

text \<open>
  C6, amended.  A text is recognised as a slot of a translation exactly when it occurs
  in the translation and has the shape: an opening brace, optional whitespace, a
  non-empty name of ASCII letters of either case, digits and hyphens, optional
  whitespace, a closing brace.  Anything else stays literal text; the parse is a total
  function and raises nothing.
\<close>

theorem slot_recognition:
  "SlotReference nm w \<in> set (segments t) \<longleftrightarrow>
     (\<exists>pre post. t = pre @ w @ post) \<and> slot_text is_name_char nm w"
  (is "?L \<longleftrightarrow> ?R")
proof
  assume ?L
  then obtain j ps where j: "j \<le> length t"
    and m: "backtrack True (source slotNamePattern) (drop j t) = Some ps"
    and w: "w = concat ps" "nm = ps ! 2"
    unfolding segments_def slot_references by blast
  from m obtain ws1 nm' ws2 r where d: "drop j t = [0x7B] @ ws1 @ nm' @ ws2 @ [0x7D] @ r"
    and cl: "list_all is_white_space ws1" "list_all is_white_space ws2" "nm' \<noteq> []"
      "list_all is_name_char nm'"
    and ps: "ps = [[0x7B], ws1, nm', ws2, [0x7D]]"
    unfolding match_slot_iff by blast
  from w ps have w': "w = [0x7B] @ ws1 @ nm @ ws2 @ [0x7D]" and nm: "nm = nm'" by simp_all
  have "t = take j t @ drop j t" by simp
  also have "drop j t = w @ r" using d w' nm by simp
  finally have "\<exists>pre post. t = pre @ w @ post" by blast
  moreover from w' nm cl have "slot_text is_name_char nm w"
    unfolding slot_text_def by blast
  ultimately show ?R ..
next
  assume ?R
  then obtain pre post ws1 ws2 where t: "t = pre @ w @ post"
    and w: "w = [0x7B] @ ws1 @ nm @ ws2 @ [0x7D]"
    and cl: "list_all is_white_space ws1" "list_all is_white_space ws2" "nm \<noteq> []"
      "list_all is_name_char nm"
    unfolding slot_text_def by blast
  have "drop (length pre) t = [0x7B] @ ws1 @ nm @ ws2 @ [0x7D] @ post"
    using t w by simp
  with cl have "backtrack True (source slotNamePattern) (drop (length pre) t) =
      Some [[0x7B], ws1, nm, ws2, [0x7D]]"
    unfolding match_slot_iff by blast
  moreover have "length pre \<le> length t" using t by simp
  moreover have "w = concat [[0x7B], ws1, nm, ws2, [0x7D]]" "nm = [[0x7B], ws1, nm, ws2, [0x7D]] ! 2"
    using w by simp_all
  ultimately show ?L
    unfolding segments_def slot_references by blast
qed

theorem slot_recognition_witness:
  "SlotReference (js ''b'') (js ''{ b }'') \<in> set (segments (js ''a{ b }c{'')) \<and>
   slot_text is_name_char (js ''b'') (js ''{ b }'')"
proof -
  have "segments (js ''a{ b }c{'') =
      [Literal (js ''a''), SlotReference (js ''b'') (js ''{ b }''), Literal (js ''c{'')]"
    by code_simp
  then have "SlotReference (js ''b'') (js ''{ b }'') \<in> set (segments (js ''a{ b }c{''))"
    by simp
  with slot_recognition [of "js ''b''" "js ''{ b }''" "js ''a{ b }c{''"] show ?thesis
    by simp
qed



text \<open>
  C10.  As stated the claim fails in its example: for \<open>{a}{b}\<close> without producers the
  render function does not return the four elements \<open>""\<close>, \<open>{a}\<close>, \<open>{b}\<close>, \<open>""\<close>.
\<close>

theorem adjacent_slots_counterexample:
  "fst (render (js ''{a}{b}'') (plain_object (\<lambda>nm. None) :: unit slots) 0) \<noteq>
     Inr [Text [], Text (js ''{a}''), Text (js ''{b}''), Text []]"
proof -
  have "fst (render (js ''{a}{b}'') (plain_object (\<lambda>nm. None) :: unit slots) 0) =
      Inr [Text [], Text (js ''{a}''), Text [], Text (js ''{b}''), Text []]"
    by code_simp
  then show ?thesis by simp
qed

text \<open>
  C10, amended.  The parsed form of a translation with \<open>k\<close> recognised slots is \<open>k + 1\<close>
  literals with the \<open>k\<close> slot references between them: each literal is the text from the
  end of the slot before it (or from index 0) to the start of the slot after it (or to
  the end), hence empty before a slot at index 0, between adjacent slots and after a
  final slot; the render output is these segments filled, so that a render which
  returns has returned the \<open>k + 1\<close> literals with the \<open>k\<close> slot contributions between
  them.  For \<open>{a}{b}\<close> without producers it is \<open>""\<close>, \<open>{a}\<close>, \<open>""\<close>, \<open>{b}\<close>, \<open>""\<close>.  A
  translation in which no text has the shape of a slot is returned as one string, the
  whole translation.
\<close>

theorem literals_between_slots:
  "(\<exists>ms. chain t 0 ms \<and> segments t = assemble t 0 ms \<and>
         fst (render t slots 0) = fill_all slots (assemble t 0 ms) \<and>
         (\<forall>out. fst (render t slots 0) = Inr out \<longrightarrow>
            (\<exists>parts. map (fill slots) (assemble t 0 ms) = map Inr parts \<and> out = concat parts)) \<and>
         length (segments t) = 2 * length ms + 1) \<and>
   fst (render (js ''{a}{b}'') (plain_object (\<lambda>nm. None)) 0) =
     Inr [Text [], Text (js ''{a}''), Text [], Text (js ''{b}''), Text []] \<and>
   ((\<nexists>pre nm w post. t = pre @ w @ post \<and> slot_text is_name_char nm w) \<longrightarrow>
      fst (render t slots 0) = Inr [Text t])"
proof (intro conjI impI)
  from segments_chain [of 0 0 t] obtain ms where ms: "chain t 0 ms" "segments t = assemble t 0 ms"
    by (auto simp: segments_def)
  then have r: "fst (render t slots 0) = fill_all slots (assemble t 0 ms)"
    and l: "length (segments t) = 2 * length ms + 1"
    by (simp_all add: render_fill length_assemble)
  have "\<forall>out. fst (render t slots 0) = Inr out \<longrightarrow>
      (\<exists>parts. map (fill slots) (assemble t 0 ms) = map Inr parts \<and> out = concat parts)"
    unfolding r fill_all_Inr by blast
  with ms r l show "\<exists>ms. chain t 0 ms \<and> segments t = assemble t 0 ms \<and>
         fst (render t slots 0) = fill_all slots (assemble t 0 ms) \<and>
         (\<forall>out. fst (render t slots 0) = Inr out \<longrightarrow>
            (\<exists>parts. map (fill slots) (assemble t 0 ms) = map Inr parts \<and> out = concat parts)) \<and>
         length (segments t) = 2 * length ms + 1"
    by blast
next
  have "segments (js ''{a}{b}'') =
      [Literal [], SlotReference (js ''a'') (js ''{a}''), Literal [],
       SlotReference (js ''b'') (js ''{b}''), Literal []]"
    by code_simp
  then show "fst (render (js ''{a}{b}'') (plain_object (\<lambda>nm. None)) 0) =
     Inr [Text [], Text (js ''{a}''), Text [], Text (js ''{b}''), Text []]"
    by (simp add: render_fill get_property_def plain_object_def object_prototype_def)
      (simp add: js_def)
next
  assume "\<nexists>pre nm w post. t = pre @ w @ post \<and> slot_text is_name_char nm w"
  from no_slot_segments [OF this] show "fst (render t slots 0) = Inr [Text t]"
    by (simp add: render_fill)
qed

theorem literals_between_slots_witness:
  "(\<nexists>pre nm w post. js ''a{'' = pre @ w @ post \<and> slot_text is_name_char nm w) \<and>
   fst (render (js ''a{'') (plain_object (\<lambda>nm. None) :: unit slots) 0) = Inr [Text (js ''a{'')]"
proof -
  have none: "\<nexists>pre nm w post. js ''a{'' = pre @ w @ post \<and> slot_text is_name_char nm w"
  proof
    assume "\<exists>pre nm w post. js ''a{'' = pre @ w @ post \<and> slot_text is_name_char nm w"
    then obtain pre nm w post where t: "js ''a{'' = pre @ w @ post"
      and w: "slot_text is_name_char nm w"
      by blast
    from t have "length (pre @ w @ post) = 2"
      by (metis length_map js_def length_Cons list.size(3) One_nat_def Suc_1)
    then have "length w \<le> 2" by simp
    moreover from w have "3 \<le> length w"
      by (auto simp: slot_text_def Suc_le_eq)
    ultimately show False by simp
  qed
  with literals_between_slots [of "js ''a{''" "plain_object (\<lambda>nm. None) :: unit slots"]
  show ?thesis by blast
qed

section \<open>The slot-filling renderer\<close>

text \<open>
  C5.  The claim holds of the render function for slot names under which the slots
  object has no property at all.  It fails where the name has no producer but is the
  name of a member that the slots object inherits from \<open>Object.prototype\<close>, which the
  property read \<open>slots[match[1]]\<close> finds: for \<open>{toString}\<close> with no producer supplied the
  render function pushes the eighteen characters of \<open>[object Undefined]\<close> and not the
  text \<open>{toString}\<close>, and for \<open>{constructor}\<close> it throws a \<open>TypeError\<close>.
\<close>

theorem inherited_slot_name:
  "fst (render (js ''{toString}'') (plain_object (\<lambda>nm. None) :: unit slots) 0) =
     Inr ([Text []] @ map (\<lambda>c. Text [c]) (js ''[object Undefined]'') @ [Text []]) \<and>
   fst (render (js ''{toString}'') (plain_object (\<lambda>nm. None) :: unit slots) 0) \<noteq>
     Inr [Text [], Text (js ''{toString}''), Text []] \<and>
   fst (render (js ''{constructor}'') (plain_object (\<lambda>nm. None) :: unit slots) 0) = Inl TypeError"
proof -
  have a: "fst (render (js ''{toString}'') (plain_object (\<lambda>nm. None) :: unit slots) 0) =
     Inr ([Text []] @ map (\<lambda>c. Text [c]) (js ''[object Undefined]'') @ [Text []])"
    by code_simp
  have "[Text []] @ map (\<lambda>c. Text [c]) (js ''[object Undefined]'') @ [Text []] \<noteq>
      [Text [], Text (js ''{toString}''), Text [] :: unit child]"
    by (simp add: js_def)
  with a have b: "fst (render (js ''{toString}'') (plain_object (\<lambda>nm. None) :: unit slots) 0) \<noteq>
     Inr [Text [], Text (js ''{toString}''), Text []]"
    by simp
  have c: "fst (render (js ''{constructor}'') (plain_object (\<lambda>nm. None) :: unit slots) 0) = Inl TypeError"
    by code_simp
  show ?thesis
    by (rule conjI [OF a conjI [OF b c]])
qed

text \<open>
  Where the claim holds: the render function returns the parsed segments filled in
  order, and the claim's example, with producers of \<open>Bob\<close> for \<open>name\<close> and of \<open>5\<close> for
  \<open>count\<close>, gives \<open>Hello \<close>, \<open>Bob\<close>, \<open>, you have \<close>, \<open>5\<close>, \<open> items\<close>.
\<close>

lemma slot_filling_example:
  "fst (render (js ''Hello {name}, you have {count} items'')
          (plain_object ((\<lambda>nm. None)(js ''name'' := Some (\<lambda>u. Inr [Text (js ''Bob'')]),
                                     js ''count'' := Some (\<lambda>u. Inr [Text (js ''5'')]))) :: unit slots) 0) =
     Inr [Text (js ''Hello ''), Text (js ''Bob''), Text (js '', you have ''), Text (js ''5''),
          Text (js '' items'')]"
proof -
  have "segments (js ''Hello {name}, you have {count} items'') =
      [Literal (js ''Hello ''), SlotReference (js ''name'') (js ''{name}''),
       Literal (js '', you have ''), SlotReference (js ''count'') (js ''{count}''),
       Literal (js '' items'')]"
    by code_simp
  then show ?thesis
    by (simp add: render_fill get_property_def plain_object_def object_prototype_def)
      (simp add: js_def)
qed

section \<open>Facts about the setup of a component\<close>

lemma registered_append: "registered (xs @ ys) = registered xs @ registered ys"
  by (induction xs rule: registered.induct) simp_all

lemma removed_append: "removed (xs @ ys) = removed xs @ removed ys"
  by (induction xs rule: removed.induct) simp_all

lemma loadBundle_Some:
  "bundles st = Some bs \<Longrightarrow>
   loadBundle ns entries st =
     (None, st\<lparr>bundles := Some (bs @ map (\<lambda>(l, res). (l, ns)) entries),
               calls := calls st @ map (\<lambda>(l, res). AddResourceBundle l ns res True False) entries\<rparr>)"
proof (induction entries arbitrary: st bs)
  case Nil
  then show ?case by simp
next
  case (Cons e entries)
  obtain l res where e: "e = (l, res)" by (cases e)
  from Cons.prems Cons.IH [of "st\<lparr>calls := calls st @ [AddResourceBundle l ns res True False],
      bundles := Some (bs @ [(l, ns)])\<rparr>" "bs @ [(l, ns)]"]
  show ?case by (simp add: e)
qed

lemma registered_adds:
  "registered (map (\<lambda>(l, res). AddResourceBundle l ns res True False) entries) =
     map (\<lambda>(l, res). (l, ns)) entries"
  by (induction entries) auto

lemma removed_adds: "removed (map (\<lambda>(l, res). AddResourceBundle l ns res True False) entries) = []"
  by (induction entries) auto

lemma local_adds: "list_all (local_add ns) (map (\<lambda>(l, res). AddResourceBundle l ns res True False) entries)"
  by (induction entries) auto

lemma loadBundle_extends:
  assumes "bundles st = Some bs"
  shows "\<exists>st' new. loadBundle ns entries st = (None, st') \<and> extends ns st st' new"
  using assms
  by (simp add: loadBundle_Some extends_def registered_adds removed_adds local_adds)

lemma extends_trans:
  "extends ns st st1 new1 \<Longrightarrow> extends ns st1 st2 new2 \<Longrightarrow> extends ns st st2 (new1 @ new2)"
  by (auto simp: extends_def registered_append removed_append)

lemma extends_refl: "bundles st = Some bs \<Longrightarrow> extends ns st st []"
  by (simp add: extends_def)

lemma loadBlocks_extends:
  "bundles st = Some bs \<Longrightarrow> loadBlocks parse ns blocks st = (err, st') \<Longrightarrow>
     \<exists>new. extends ns st st' new"
proof (induction blocks arbitrary: st bs)
  case Nil
  then show ?case using extends_refl by auto
next
  case (Cons b blocks)
  show ?case
  proof (cases "parse b")
    case None
    with Cons.prems show ?thesis using extends_refl by auto
  next
    case (Some entries)
    from loadBundle_extends [OF Cons.prems(1), of ns entries] obtain st1 new1
      where l: "loadBundle ns entries st = (None, st1)" and e1: "extends ns st st1 new1"
      by blast
    from e1 obtain bs1 where "bundles st1 = Some bs1" by (auto simp: extends_def)
    from Cons.IH [OF this] Cons.prems(2) Some l obtain new2 where "extends ns st1 st' new2"
      by auto
    with e1 show ?thesis using extends_trans by blast
  qed
qed


lemma handleI18nOptions_extends:
  assumes "bundles st = Some bs" "handleI18nOptions i18next options ns st = (err, res, st')"
  shows "\<exists>new. extends ns st st' new"
proof (cases "i18nOptions options")
  case None
  with assms show ?thesis using extends_refl by (auto simp: handleI18nOptions_def)
next
  case (Some opts)
  obtain e1 st1 where l: "(case messages opts of None \<Rightarrow> (None, st)
      | Some entries \<Rightarrow> loadBundle ns entries st) = (e1, st1)"
    by (cases "case messages opts of None \<Rightarrow> (None, st) | Some entries \<Rightarrow> loadBundle ns entries st")
  have "\<exists>new1. extends ns st st1 new1 \<and> e1 = None"
  proof (cases "messages opts")
    case None
    with l assms(1) show ?thesis using extends_refl by auto
  next
    case (Some entries)
    with l loadBundle_extends [OF assms(1), of ns entries] show ?thesis by auto
  qed
  then obtain new1 where e1: "extends ns st st1 new1" "e1 = None" by blast
  then obtain bs1 where b1: "bundles st1 = Some bs1" by (auto simp: extends_def)
  define dns where "dns = (case (case namespaces opts of None \<Rightarrow> defaultNS i18next | Some d \<Rightarrow> Some d) of
                       None \<Rightarrow> None
                     | Some (OneNs n) \<Rightarrow> Some [n]
                     | Some (ManyNs l) \<Rightarrow> Some l)"
  from assms(2) Some l e1(2) have st': "st' = (case dns of None \<Rightarrow> st1
      | Some l \<Rightarrow> st1\<lparr>calls := calls st1 @ [LoadNamespaces l]\<rparr>)"
    by (simp add: handleI18nOptions_def Let_def dns_def)
  have "\<exists>new2. extends ns st1 st' new2"
  proof (cases dns)
    case None
    with st' b1 show ?thesis using extends_refl by auto
  next
    case (Some l)
    with st' b1 have "extends ns st1 st' [LoadNamespaces l]"
      by (simp add: extends_def)
    then show ?thesis ..
  qed
  with e1(1) show ?thesis using extends_trans by blast
qed

lemma handleI18nOptions_result:
  "handleI18nOptions i18next options ns st = (None, res, st') \<Longrightarrow>
     (case r_ns res of None \<Rightarrow> [] | Some l \<Rightarrow> l) = declared_ns i18next options \<and>
     r_lng res = (case i18nOptions options of None \<Rightarrow> None | Some opts \<Rightarrow> lng opts) \<and>
     r_keyPrefix res = (case i18nOptions options of None \<Rightarrow> None | Some opts \<Rightarrow> keyPrefix opts)"
  by (auto simp: handleI18nOptions_def declared_ns_def Let_def
      split: option.splits prod.splits namespaces.splits)

lemma beforeCreate_extends:
  assumes "beforeCreate parse i18next random options st = (err, st')"
    and "i18n_blocks options \<noteq> None \<or> i18nOptions options \<noteq> None"
  shows "\<exists>new st3 more. extends (localNs (name options) random) (st\<lparr>bundles := Some []\<rparr>) st3 new \<and>
           calls st' = calls st3 @ more \<and> bundles st' = bundles st3 \<and> registered more = [] \<and>
           removed more = [] \<and> list_all (local_add (localNs (name options) random)) more"
proof -
  define ns where "ns = localNs (name options) random"
  define st1 where "st1 = st\<lparr>bundles := Some []\<rparr>"
  have b1: "bundles st1 = Some []" by (simp add: st1_def)
  obtain e2 st2 where lb: "loadBlocks parse ns (case i18n_blocks options of None \<Rightarrow> [] | Some bs \<Rightarrow> bs) st1
      = (e2, st2)"
    by (cases "loadBlocks parse ns (case i18n_blocks options of None \<Rightarrow> [] | Some bs \<Rightarrow> bs) st1")
  from loadBlocks_extends [OF b1 lb] obtain new1 where x1: "extends ns st1 st2 new1" ..
  then obtain bs2 where b2: "bundles st2 = Some bs2" by (auto simp: extends_def)
  show ?thesis
  proof (cases e2)
    case (Some e)
    with assms lb have "st' = st2"
      by (auto simp: beforeCreate_def ns_def st1_def Let_def)
    with x1 show ?thesis
      unfolding ns_def st1_def by (intro exI [of _ new1] exI [of _ st2] exI [of _ "[]"]) simp
  next
    case None
    obtain e3 res st3 where h: "handleI18nOptions i18next options ns st2 = (e3, res, st3)"
      by (cases "handleI18nOptions i18next options ns st2")
    from handleI18nOptions_extends [OF b2 h] obtain new2 where "extends ns st2 st3 new2" ..
    with x1 have x3: "extends ns st1 st3 (new1 @ new2)" by (rule extends_trans)
    show ?thesis
    proof (cases e3)
      case (Some e)
      with assms lb None h have "st' = st3"
        by (auto simp: beforeCreate_def ns_def st1_def Let_def)
      with x3 show ?thesis
        unfolding ns_def st1_def by (intro exI [of _ "new1 @ new2"] exI [of _ st3] exI [of _ "[]"]) simp
    next
      case e3: None
      from assms lb None h e3 obtain more where "calls st' = calls st3 @ more" "bundles st' = bundles st3"
        "registered more = []" "removed more = []" "list_all (local_add ns) more"
        by (auto simp: beforeCreate_def ns_def st1_def Let_def getTranslationFunction_def
            split: if_splits prod.splits)
      with x3 show ?thesis
        unfolding ns_def st1_def by (intro exI [of _ "new1 @ new2"] exI [of _ st3] exI [of _ more]) simp
    qed
  qed
qed


lemma beforeCreate_built:
  assumes "beforeCreate parse i18next random options st = (None, st')"
    and "i18n_blocks options \<noteq> None \<or> i18nOptions options \<noteq> None"
  shows "\<exists>new st3 nss.
           extends (localNs (name options) random) (st\<lparr>bundles := Some []\<rparr>) st3 new \<and>
           (registered new \<noteq> [] \<longrightarrow>
              nss = Some (localNs (name options) random # declared_ns i18next options)) \<and>
           st' = (snd (getTranslationFunction
                         (case i18nOptions options of None \<Rightarrow> None | Some opts \<Rightarrow> lng opts) nss st3))
                   \<lparr>translate := Some (Closure
                      (case i18nOptions options of None \<Rightarrow> None | Some opts \<Rightarrow> keyPrefix opts)
                      (fst (getTranslationFunction
                         (case i18nOptions options of None \<Rightarrow> None | Some opts \<Rightarrow> lng opts) nss st3)))\<rparr>"
proof -
  define ns where "ns = localNs (name options) random"
  define st1 where "st1 = st\<lparr>bundles := Some []\<rparr>"
  have b1: "bundles st1 = Some []" by (simp add: st1_def)
  obtain e2 st2 where lb: "loadBlocks parse ns (case i18n_blocks options of None \<Rightarrow> [] | Some bs \<Rightarrow> bs) st1
      = (e2, st2)"
    by (cases "loadBlocks parse ns (case i18n_blocks options of None \<Rightarrow> [] | Some bs \<Rightarrow> bs) st1")
  from loadBlocks_extends [OF b1 lb] obtain new1 where x1: "extends ns st1 st2 new1" ..
  then obtain bs2 where b2: "bundles st2 = Some bs2" by (auto simp: extends_def)
  obtain e3 res st3 where h: "handleI18nOptions i18next options ns st2 = (e3, res, st3)"
    by (cases "handleI18nOptions i18next options ns st2")
  from assms lb h have e: "e2 = None" "e3 = None"
    by (auto simp: beforeCreate_def ns_def st1_def Let_def split: option.splits prod.splits)
  from handleI18nOptions_extends [OF b2 h] obtain new2 where "extends ns st2 st3 new2" ..
  with x1 have x3: "extends ns st1 st3 (new1 @ new2)" by (rule extends_trans)
  then have b3: "bundles st3 = Some (registered (new1 @ new2))"
    by (simp add: extends_def st1_def)
  note r = handleI18nOptions_result [OF h [unfolded e]]
  define nss where "nss = (if registered (new1 @ new2) \<noteq> []
      then Some (ns # (case r_ns res of None \<Rightarrow> [] | Some l \<Rightarrow> l)) else r_ns res)"
  from assms(2) have nt: "\<not> (i18n_blocks options = None \<and> i18nOptions options = None)"
    by simp
  have "beforeCreate parse i18next random options st =
      (None, (snd (getTranslationFunction (r_lng res) nss st3))
       \<lparr>translate := Some (Closure (r_keyPrefix res) (fst (getTranslationFunction (r_lng res) nss st3)))\<rparr>)"
    unfolding beforeCreate_def if_not_P [OF nt] Let_def
    using lb h e b3 by (simp add: ns_def st1_def nss_def split: prod.splits)
  with assms(1) have "st' = (snd (getTranslationFunction (r_lng res) nss st3))
       \<lparr>translate := Some (Closure (r_keyPrefix res) (fst (getTranslationFunction (r_lng res) nss st3)))\<rparr>"
    by simp
  moreover have "registered (new1 @ new2) \<noteq> [] \<longrightarrow> nss = Some (ns # declared_ns i18next options)"
    using r by (simp add: nss_def)
  ultimately show ?thesis
    using x3 r unfolding ns_def st1_def
    by (intro exI [of _ "new1 @ new2"] exI [of _ st3] exI [of _ nss]) simp
qed

lemma get_calls:
  "calls (snd (getTranslationFunction l nss st)) =
     calls st @ (if truthy l then [GetFixedT l nss]
                 else if nss \<noteq> None then [GetFixedT None nss] else [])"
  "bundles (snd (getTranslationFunction l nss st)) = bundles st"
  by (simp_all add: getTranslationFunction_def)

lemma setup_example: "beforeCreate (\<lambda>b. None)
       \<lparr>isInitialized = True, nsSeparator = Some (js '':''), defaultNS = Some (OneNs (js ''translation'')),
        lookup = (\<lambda>f k (u::unit). k)\<rparr>
       7 \<lparr>name = None, i18n_blocks = None,
          i18nOptions = Some \<lparr>lng = None, keyPrefix = Some (js ''greet''), namespaces = None,
                              messages = Some [(js ''en'', Leaf (js ''hi''))]\<rparr>\<rparr>
       \<lparr>bundles = None, translate = None, calls = [] :: unit call list\<rparr> =
     (None, \<lparr>bundles = Some [(js ''en'', js ''7'')],
            translate = Some (Closure (Some (js ''greet'')) (FixedT None (Some [js ''7'', js ''translation'']))),
            calls = [AddResourceBundle (js ''en'') (js ''7'') (Leaf (js ''hi'')) True False,
                     LoadNamespaces [js ''translation''],
                     GetFixedT None (Some [js ''7'', js ''translation''])]\<rparr>)"
  by code_simp

lemma setup_example_calls: "calls \<lparr>bundles = Some [(js ''en'', js ''7'')],
            translate = Some (Closure (Some (js ''greet'')) (FixedT None (Some [js ''7'', js ''translation'']))),
            calls = [AddResourceBundle (js ''en'') (js ''7'') (Leaf (js ''hi'')) True False,
                     LoadNamespaces [js ''translation''],
                     GetFixedT None (Some [js ''7'', js ''translation'']) :: unit call]\<rparr> = calls \<lparr>bundles = None, translate = None, calls = [] :: unit call list\<rparr> @ [AddResourceBundle (js ''en'') (js ''7'') (Leaf (js ''hi'')) True False,
                     LoadNamespaces [js ''translation''],
                     GetFixedT None (Some [js ''7'', js ''translation'']) :: unit call]"
  by simp

lemma setup_example_registered: "registered [AddResourceBundle (js ''en'') (js ''7'') (Leaf (js ''hi'')) True False,
                     LoadNamespaces [js ''translation''],
                     GetFixedT None (Some [js ''7'', js ''translation'']) :: unit call] \<noteq> []"
  by simp

lemma includes_str_iff: "includes_str s sub \<longleftrightarrow> (\<exists>pre post. s = pre @ sub @ post)"
proof (induction s)
  case Nil
  show ?case by auto
next
  case (Cons c cs)
  show ?case
  proof
    assume "includes_str (c # cs) sub"
    then consider "take (length sub) (c # cs) = sub" | "includes_str cs sub" by auto
    then show "\<exists>pre post. c # cs = pre @ sub @ post"
    proof cases
      case 1
      then have "c # cs = [] @ sub @ drop (length sub) (c # cs)"
        by (metis append_Nil append_take_drop_id)
      then show ?thesis by blast
    next
      case 2
      with Cons obtain pre post where "cs = pre @ sub @ post" by blast
      then have "c # cs = (c # pre) @ sub @ post" by simp
      then show ?thesis by blast
    qed
  next
    assume "\<exists>pre post. c # cs = pre @ sub @ post"
    then obtain pre post where p: "c # cs = pre @ sub @ post" by blast
    show "includes_str (c # cs) sub"
    proof (cases pre)
      case Nil
      with p have "take (length sub) (c # cs) = sub" by simp
      then show ?thesis by simp
    next
      case (Cons a pre')
      with p have "cs = pre' @ sub @ post" by simp
      with Cons.IH have "includes_str cs sub" by blast
      then show ?thesis by simp
    qed
  qed
qed

section \<open>Setup and teardown of a component\<close>

text \<open>
  C2.  When \<open>beforeCreate\<close> runs on an instance that has no \<open>__bundles\<close> yet, the calls
  it makes remove nothing, and \<open>unmounted\<close> then makes exactly one \<open>removeResourceBundle\<close>
  call for each \<open>addResourceBundle\<close> call of the setup, with the same language and
  namespace, in the same order.  On an instance whose \<open>__bundles\<close> is undefined or empty,
  \<open>unmounted\<close> changes nothing and makes no call.
\<close>

theorem teardown_removes_registered:
  "(bundles st = None \<and> beforeCreate parse i18next random options st = (err, st') \<longrightarrow>
      (\<exists>new. calls st' = calls st @ new \<and> removed new = [] \<and>
         calls (unmounted st') =
           calls st' @ map (\<lambda>(l, ns). RemoveResourceBundle l ns) (registered new))) \<and>
   (bundles st0 = None \<or> bundles st0 = Some [] \<longrightarrow> unmounted st0 = st0)"
proof (intro conjI impI)
  assume a: "bundles st = None \<and> beforeCreate parse i18next random options st = (err, st')"
  show "\<exists>new. calls st' = calls st @ new \<and> removed new = [] \<and>
         calls (unmounted st') =
           calls st' @ map (\<lambda>(l, ns). RemoveResourceBundle l ns) (registered new)"
  proof (cases "i18n_blocks options = None \<and> i18nOptions options = None")
    case True
    with a have "st' = st\<lparr>translate := None\<rparr>"
      by (simp add: beforeCreate_def)
    with a show ?thesis
      by (intro exI [of _ "[]"]) (simp add: unmounted_def)
  next
    case False
    then have "i18n_blocks options \<noteq> None \<or> i18nOptions options \<noteq> None" by simp
    from beforeCreate_extends [OF conjunct2 [OF a] this] obtain new st3 more
      where x: "extends (localNs (name options) random) (st\<lparr>bundles := Some []\<rparr>) st3 new"
        and m: "calls st' = calls st3 @ more" "bundles st' = bundles st3" "registered more = []"
          "removed more = []"
      by blast
    from x m have "calls st' = calls st @ (new @ more)" "bundles st' = Some (registered (new @ more))"
      "removed (new @ more) = []"
      by (simp_all add: extends_def registered_append removed_append)
    then show ?thesis
      by (intro exI [of _ "new @ more"]) (simp add: unmounted_def)
  qed
next
  assume "bundles st0 = None \<or> bundles st0 = Some []"
  then show "unmounted st0 = st0"
    by (auto simp: unmounted_def)
qed


theorem teardown_removes_registered_witness:
  "bundles \<lparr>bundles = None, translate = None, calls = [] :: unit call list\<rparr> = None \<and>
   beforeCreate (\<lambda>b. Some [(js ''en'', Leaf (js ''hi'')), (js ''de'', Leaf (js ''hallo''))])
       \<lparr>isInitialized = True, nsSeparator = Some (js '':''), defaultNS = None, lookup = (\<lambda>f k u. k)\<rparr>
       42 \<lparr>name = Some (js ''Card''), i18n_blocks = Some [js ''{}''], i18nOptions = None\<rparr>
       \<lparr>bundles = None, translate = None, calls = [] :: unit call list\<rparr> =
     (None, \<lparr>bundles = Some [(js ''en'', js ''Card-42''), (js ''de'', js ''Card-42'')],
            translate = Some (Closure None (FixedT None (Some [js ''Card-42'']))),
            calls = [AddResourceBundle (js ''en'') (js ''Card-42'') (Leaf (js ''hi'')) True False,
                     AddResourceBundle (js ''de'') (js ''Card-42'') (Leaf (js ''hallo'')) True False,
                     GetFixedT None (Some [js ''Card-42''])]\<rparr>) \<and>
   removed (calls (unmounted
       \<lparr>bundles = Some [(js ''en'', js ''Card-42''), (js ''de'', js ''Card-42'')],
        translate = Some (Closure None (FixedT None (Some [js ''Card-42'']))),
        calls = [AddResourceBundle (js ''en'') (js ''Card-42'') (Leaf (js ''hi'')) True False,
                 AddResourceBundle (js ''de'') (js ''Card-42'') (Leaf (js ''hallo'')) True False,
                 GetFixedT None (Some [js ''Card-42''])] :: unit call list\<rparr>)) =
     [(js ''en'', js ''Card-42''), (js ''de'', js ''Card-42'')] \<and>
   unmounted \<lparr>bundles = None, translate = None, calls = [] :: unit call list\<rparr> =
     \<lparr>bundles = None, translate = None, calls = []\<rparr>"
proof -
  let ?st = "\<lparr>bundles = None, translate = None, calls = [] :: unit call list\<rparr>"
  let ?st' = "\<lparr>bundles = Some [(js ''en'', js ''Card-42''), (js ''de'', js ''Card-42'')],
        translate = Some (Closure None (FixedT None (Some [js ''Card-42'']))),
        calls = [AddResourceBundle (js ''en'') (js ''Card-42'') (Leaf (js ''hi'')) True False,
                 AddResourceBundle (js ''de'') (js ''Card-42'') (Leaf (js ''hallo'')) True False,
                 GetFixedT None (Some [js ''Card-42''])] :: unit call list\<rparr>"
  have run: "beforeCreate (\<lambda>b. Some [(js ''en'', Leaf (js ''hi'')), (js ''de'', Leaf (js ''hallo''))])
       \<lparr>isInitialized = True, nsSeparator = Some (js '':''), defaultNS = None, lookup = (\<lambda>f k u. k)\<rparr>
       42 \<lparr>name = Some (js ''Card''), i18n_blocks = Some [js ''{}''], i18nOptions = None\<rparr> ?st =
     (None, ?st')"
    by code_simp
  have fresh: "bundles ?st = None" by simp
  note inst = teardown_removes_registered [of ?st _ _ 42 _ None ?st' ?st]
  from inst fresh have idle: "unmounted ?st = ?st"
    by blast
  from inst fresh run
  obtain new where new: "calls ?st' = calls ?st @ new" and un: "calls (unmounted ?st') =
           calls ?st' @ map (\<lambda>(l, ns). RemoveResourceBundle l ns) (registered new)"
    by blast
  from new have "new = [AddResourceBundle (js ''en'') (js ''Card-42'') (Leaf (js ''hi'')) True False,
                 AddResourceBundle (js ''de'') (js ''Card-42'') (Leaf (js ''hallo'')) True False,
                 GetFixedT None (Some [js ''Card-42''])]"
    by simp
  with un have rem: "removed (calls (unmounted ?st')) = [(js ''en'', js ''Card-42''), (js ''de'', js ''Card-42'')]"
    by (simp add: removed_append)
  show ?thesis
    by (rule conjI [OF fresh conjI [OF run conjI [OF rem idle]]])
qed

text \<open>
  C7.  When the setup of a component returns and has made at least one
  \<open>addResourceBundle\<close> call, the translation function it stores is built by
  \<open>getFixedT\<close> on a namespace list whose first element is the component's local
  namespace, followed by the declared (or default) namespaces.
\<close>

theorem local_namespace_first:
  assumes run: "beforeCreate parse (i18next :: 'o catalog) random options st = (None, st')"
    and new: "calls st' = calls st @ new"
    and reg: "registered new \<noteq> []"
  shows "\<exists>l. translate st' =
           Some (Closure (case i18nOptions options of None \<Rightarrow> None | Some opts \<Rightarrow> keyPrefix opts)
                   (FixedT l (Some (localNs (name options) random # declared_ns i18next options)))) \<and>
         GetFixedT l (Some (localNs (name options) random # declared_ns i18next options)) \<in> set new"
proof -
  have nt: "i18n_blocks options \<noteq> None \<or> i18nOptions options \<noteq> None"
  proof (rule ccontr)
    assume "\<not> ?thesis"
    with run have "st' = st\<lparr>translate := None\<rparr>"
      by (simp add: beforeCreate_def)
    with new reg show False by simp
  qed
  define lg where "lg = (case i18nOptions options of None \<Rightarrow> None | Some opts \<Rightarrow> lng opts)"
  define ns where "ns = localNs (name options) random # declared_ns i18next options"
  from beforeCreate_built [OF run nt] obtain new0 st3 nss
    where x: "extends (localNs (name options) random) (st\<lparr>bundles := Some []\<rparr>) st3 new0"
      and n: "registered new0 \<noteq> [] \<longrightarrow> nss = Some ns"
      and st': "st' = (snd (getTranslationFunction lg nss st3))
                   \<lparr>translate := Some (Closure
                      (case i18nOptions options of None \<Rightarrow> None | Some opts \<Rightarrow> keyPrefix opts)
                      (fst (getTranslationFunction lg nss st3)))\<rparr>"
    unfolding lg_def ns_def by blast
  from x have c3: "calls st3 = calls st @ new0" by (simp add: extends_def)
  define extra :: "'o call list" where "extra = (if truthy lg then [GetFixedT lg nss]
                 else if nss \<noteq> None then [GetFixedT None nss] else [])"
  from st' c3 new have "new = new0 @ extra"
    by (simp add: get_calls extra_def)
  moreover have "registered extra = []" by (simp add: extra_def)
  ultimately have "registered new0 \<noteq> []" using reg by (simp add: registered_append)
  with n have nss: "nss = Some ns" by simp
  define l where "l = (if truthy lg then lg else None)"
  from nss have g: "getTranslationFunction lg nss st3 =
      (FixedT l (Some ns), st3\<lparr>calls := calls st3 @ [GetFixedT l (Some ns)]\<rparr>)"
    by (simp add: getTranslationFunction_def l_def)
  from nss have "extra = [GetFixedT l (Some ns)]" by (simp add: extra_def l_def)
  with \<open>new = new0 @ extra\<close> have "GetFixedT l (Some ns) \<in> set new" by simp
  moreover from st' g have "translate st' =
      Some (Closure (case i18nOptions options of None \<Rightarrow> None | Some opts \<Rightarrow> keyPrefix opts)
              (FixedT l (Some ns)))"
    by simp
  ultimately show ?thesis unfolding ns_def by blast
qed

theorem local_namespace_first_witness:
  "beforeCreate (\<lambda>b. None)
       \<lparr>isInitialized = True, nsSeparator = Some (js '':''), defaultNS = Some (OneNs (js ''translation'')),
        lookup = (\<lambda>f k (u::unit). k)\<rparr>
       7 \<lparr>name = None, i18n_blocks = None,
          i18nOptions = Some \<lparr>lng = None, keyPrefix = Some (js ''greet''), namespaces = None,
                              messages = Some [(js ''en'', Leaf (js ''hi''))]\<rparr>\<rparr>
       \<lparr>bundles = None, translate = None, calls = [] :: unit call list\<rparr> =
     (None, \<lparr>bundles = Some [(js ''en'', js ''7'')],
            translate = Some (Closure (Some (js ''greet'')) (FixedT None (Some [js ''7'', js ''translation'']))),
            calls = [AddResourceBundle (js ''en'') (js ''7'') (Leaf (js ''hi'')) True False,
                     LoadNamespaces [js ''translation''],
                     GetFixedT None (Some [js ''7'', js ''translation''])]\<rparr>) \<and>
   (\<exists>l. GetFixedT l (Some (localNs None 7 #
            declared_ns \<lparr>isInitialized = True, nsSeparator = Some (js '':''),
                          defaultNS = Some (OneNs (js ''translation'')), lookup = (\<lambda>f k (u::unit). k)\<rparr>
              \<lparr>name = None, i18n_blocks = None,
               i18nOptions = Some \<lparr>lng = None, keyPrefix = Some (js ''greet''), namespaces = None,
                                   messages = Some [(js ''en'', Leaf (js ''hi''))]\<rparr>\<rparr>))
        \<in> set [AddResourceBundle (js ''en'') (js ''7'') (Leaf (js ''hi'')) True False,
                LoadNamespaces [js ''translation''],
                GetFixedT None (Some [js ''7'', js ''translation'']) :: unit call])"
proof -
  from local_namespace_first [OF setup_example setup_example_calls setup_example_registered]
  obtain l where "GetFixedT l (Some (localNs (name \<lparr>name = None, i18n_blocks = None,
               i18nOptions = Some \<lparr>lng = None, keyPrefix = Some (js ''greet''), namespaces = None,
                                   messages = Some [(js ''en'', Leaf (js ''hi''))]\<rparr>\<rparr>) 7 #
            declared_ns \<lparr>isInitialized = True, nsSeparator = Some (js '':''),
                          defaultNS = Some (OneNs (js ''translation'')), lookup = (\<lambda>f k (u::unit). k)\<rparr>
              \<lparr>name = None, i18n_blocks = None,
               i18nOptions = Some \<lparr>lng = None, keyPrefix = Some (js ''greet''), namespaces = None,
                                   messages = Some [(js ''en'', Leaf (js ''hi''))]\<rparr>\<rparr>))
        \<in> set [AddResourceBundle (js ''en'') (js ''7'') (Leaf (js ''hi'')) True False,
                LoadNamespaces [js ''translation''],
                GetFixedT None (Some [js ''7'', js ''translation'']) :: unit call]"
    by (elim exE conjE)
  then have "\<exists>l. GetFixedT l (Some (localNs None 7 #
              declared_ns \<lparr>isInitialized = True, nsSeparator = Some (js '':''),
                            defaultNS = Some (OneNs (js ''translation'')), lookup = (\<lambda>f k (u::unit). k)\<rparr>
                \<lparr>name = None, i18n_blocks = None,
                 i18nOptions = Some \<lparr>lng = None, keyPrefix = Some (js ''greet''), namespaces = None,
                                     messages = Some [(js ''en'', Leaf (js ''hi''))]\<rparr>\<rparr>))
          \<in> set [AddResourceBundle (js ''en'') (js ''7'') (Leaf (js ''hi'')) True False,
                  LoadNamespaces [js ''translation''],
                  GetFixedT None (Some [js ''7'', js ''translation'']) :: unit call]"
    by (intro exI [of _ l]) (simp only: component_options.select_convs)
  with setup_example show ?thesis by (rule conjI)
qed

section \<open>The bundle registrar\<close>

text \<open>
  C8.  As stated the claim fails where it gives the policy as overwriting existing keys:
  the one \<open>addResourceBundle\<close> call made for an entry passes \<open>overwrite = false\<close>.
\<close>

theorem no_overwrite_counterexample:
  "calls (snd (loadBundle (js ''ns'') [(js ''en'', Leaf (js ''hi''))]
       \<lparr>bundles = Some [], translate = None, calls = [] :: unit call list\<rparr>)) =
     [AddResourceBundle (js ''en'') (js ''ns'') (Leaf (js ''hi'')) True False] \<and>
   \<not> requests_overwrite
       (AddResourceBundle (js ''en'') (js ''ns'') (Leaf (js ''hi'')) True False :: unit call)"
  by simp

text \<open>
  C8, amended.  For every entry \<open>(language, messages)\<close> handed to \<open>loadBundle\<close> on an
  instance that has a bundle list, the messages are added by one call
  \<open>addResourceBundle(language, ns, messages, true, false)\<close>, that is with \<open>deep = true\<close>
  and without asking to overwrite existing keys, and \<open>(language, ns)\<close> is appended to the
  bundle list; and in every call of this kind that the setup of a component makes,
  \<open>ns\<close> is the component's local namespace.
\<close>

theorem bundle_registration:
  "(bundles st = Some bs \<longrightarrow>
      loadBundle ns entries st =
        (None, st\<lparr>bundles := Some (bs @ map (\<lambda>(l, res). (l, ns)) entries),
                  calls := calls st @ map (\<lambda>(l, res). AddResourceBundle l ns res True False) entries\<rparr>)) \<and>
   (beforeCreate parse i18next random options st = (err, st') \<longrightarrow>
      (\<exists>new. calls st' = calls st @ new \<and> list_all (local_add (localNs (name options) random)) new))"
proof (intro conjI impI)
  assume "bundles st = Some bs"
  then show "loadBundle ns entries st =
        (None, st\<lparr>bundles := Some (bs @ map (\<lambda>(l, res). (l, ns)) entries),
                  calls := calls st @ map (\<lambda>(l, res). AddResourceBundle l ns res True False) entries\<rparr>)"
    by (rule loadBundle_Some)
next
  assume run: "beforeCreate parse i18next random options st = (err, st')"
  show "\<exists>new. calls st' = calls st @ new \<and> list_all (local_add (localNs (name options) random)) new"
  proof (cases "i18n_blocks options = None \<and> i18nOptions options = None")
    case True
    with run have "st' = st\<lparr>translate := None\<rparr>"
      by (simp add: beforeCreate_def)
    then show ?thesis
      by (intro exI [of _ "[]"]) simp
  next
    case False
    then have "i18n_blocks options \<noteq> None \<or> i18nOptions options \<noteq> None" by simp
    from beforeCreate_extends [OF run this] obtain new st3 more
      where "extends (localNs (name options) random) (st\<lparr>bundles := Some []\<rparr>) st3 new"
        and "calls st' = calls st3 @ more" "list_all (local_add (localNs (name options) random)) more"
      by blast
    then show ?thesis
      by (intro exI [of _ "new @ more"]) (simp add: extends_def)
  qed
qed

theorem bundle_registration_witness:
  "bundles \<lparr>bundles = Some [(js ''de'', js ''ns'')], translate = None, calls = [] :: unit call list\<rparr> =
     Some [(js ''de'', js ''ns'')] \<and>
   loadBundle (js ''ns'') [(js ''en'', Leaf (js ''hi'')), (js ''fr'', Leaf (js ''salut''))]
       \<lparr>bundles = Some [(js ''de'', js ''ns'')], translate = None, calls = [] :: unit call list\<rparr> =
     (None, \<lparr>bundles = Some [(js ''de'', js ''ns''), (js ''en'', js ''ns''), (js ''fr'', js ''ns'')],
            translate = None,
            calls = [AddResourceBundle (js ''en'') (js ''ns'') (Leaf (js ''hi'')) True False,
                     AddResourceBundle (js ''fr'') (js ''ns'') (Leaf (js ''salut'')) True False]\<rparr>)"
proof -
  have b: "bundles \<lparr>bundles = Some [(js ''de'', js ''ns'')], translate = None, calls = [] :: unit call list\<rparr> =
     Some [(js ''de'', js ''ns'')]"
    by simp
  from bundle_registration [of "\<lparr>bundles = Some [(js ''de'', js ''ns'')], translate = None,
        calls = [] :: unit call list\<rparr>" "[(js ''de'', js ''ns'')]" "js ''ns''"
      "[(js ''en'', Leaf (js ''hi'')), (js ''fr'', Leaf (js ''salut''))]"] b
  have "loadBundle (js ''ns'') [(js ''en'', Leaf (js ''hi'')), (js ''fr'', Leaf (js ''salut''))]
       \<lparr>bundles = Some [(js ''de'', js ''ns'')], translate = None, calls = [] :: unit call list\<rparr> =
     (None, \<lparr>bundles = Some [(js ''de'', js ''ns'')], translate = None, calls = [] :: unit call list\<rparr>
        \<lparr>bundles := Some ([(js ''de'', js ''ns'')] @
            map (\<lambda>(l, res). (l, js ''ns'')) [(js ''en'', Leaf (js ''hi'')), (js ''fr'', Leaf (js ''salut''))]),
         calls := calls \<lparr>bundles = Some [(js ''de'', js ''ns'')], translate = None, calls = [] :: unit call list\<rparr> @
            map (\<lambda>(l, res). AddResourceBundle l (js ''ns'') res True False)
              [(js ''en'', Leaf (js ''hi'')), (js ''fr'', Leaf (js ''salut''))]\<rparr>)"
    by blast
  then have "loadBundle (js ''ns'') [(js ''en'', Leaf (js ''hi'')), (js ''fr'', Leaf (js ''salut''))]
       \<lparr>bundles = Some [(js ''de'', js ''ns'')], translate = None, calls = [] :: unit call list\<rparr> =
     (None, \<lparr>bundles = Some [(js ''de'', js ''ns''), (js ''en'', js ''ns''), (js ''fr'', js ''ns'')],
            translate = None,
            calls = [AddResourceBundle (js ''en'') (js ''ns'') (Leaf (js ''hi'')) True False,
                     AddResourceBundle (js ''fr'') (js ''ns'') (Leaf (js ''salut'')) True False]\<rparr>)"
    by simp
  with b show ?thesis by (rule conjI)
qed

section \<open>Translating a key\<close>

text \<open>
  C3.  As stated the claim fails for a \<open>keyPrefix\<close> that is configured as the empty
  string: the key \<open>key\<close>, which contains no separator, goes to the lookup unchanged and
  not as \<open>.key\<close>.
\<close>

theorem empty_prefix_counterexample:
  "snd (apply_translate
          \<lparr>isInitialized = True, nsSeparator = Some (js '':''), defaultNS = None, lookup = (\<lambda>f k u. k)\<rparr>
          (Closure (Some []) GenericT) (js ''key'') ()) =
     [Translate GenericT (js ''key'') ()] \<and>
   \<not> includesNs
       \<lparr>isInitialized = True, nsSeparator = Some (js '':''), defaultNS = None,
        lookup = (\<lambda>f k (u::unit). k)\<rparr> (js ''key'') \<and>
   [] @ js ''.'' @ js ''key'' \<noteq> js ''key''"
  by (simp add: truthy_def call_t_def includesNs_def js_def)

text \<open>
  C3, amended.  For every key and every translate function of a component built with a
  non-empty \<open>keyPrefix\<close>: if the key contains the catalog's namespace separator (a
  string), the key goes to the resolved lookup unchanged; otherwise the key that goes
  to it is \<open>keyPrefix + "." + key\<close>.  When no \<open>keyPrefix\<close> is configured, or it is the empty
  string, every key goes unchanged.  With separator \<open>:\<close> and prefix \<open>greet\<close>, \<open>ns:key\<close> stays
  \<open>ns:key\<close> and \<open>key\<close> becomes \<open>greet.key\<close>.
\<close>

theorem key_prefix:
  "(p \<noteq> [] \<and> includesNs i18next key \<longrightarrow>
      apply_translate i18next (Closure (Some p) f) key options = call_t i18next f key options) \<and>
   (p \<noteq> [] \<and> \<not> includesNs i18next key \<longrightarrow>
      apply_translate i18next (Closure (Some p) f) key options =
        call_t i18next f (p @ js ''.'' @ key) options) \<and>
   apply_translate i18next (Closure None f) key options = call_t i18next f key options \<and>
   apply_translate i18next (Closure (Some []) f) key options = call_t i18next f key options \<and>
   (includesNs i18next key \<longleftrightarrow>
      (\<exists>sep pre post. nsSeparator i18next = Some sep \<and> key = pre @ sep @ post)) \<and>
   (nsSeparator i18next = Some (js '':'') \<longrightarrow>
      apply_translate i18next (Closure (Some (js ''greet'')) f) (js ''ns:key'') options =
        call_t i18next f (js ''ns:key'') options \<and>
      apply_translate i18next (Closure (Some (js ''greet'')) f) (js ''key'') options =
        call_t i18next f (js ''greet.key'') options)"
proof (intro conjI impI)
  show "includesNs i18next key \<longleftrightarrow>
      (\<exists>sep pre post. nsSeparator i18next = Some sep \<and> key = pre @ sep @ post)"
    by (cases "nsSeparator i18next") (simp_all add: includesNs_def includes_str_iff)
next
  assume "nsSeparator i18next = Some (js '':'')"
  then show "apply_translate i18next (Closure (Some (js ''greet'')) f) (js ''ns:key'') options =
        call_t i18next f (js ''ns:key'') options"
    by (simp add: includesNs_def truthy_def js_def)
next
  assume "nsSeparator i18next = Some (js '':'')"
  then show "apply_translate i18next (Closure (Some (js ''greet'')) f) (js ''key'') options =
        call_t i18next f (js ''greet.key'') options"
    by (simp add: includesNs_def truthy_def js_def)
qed (simp_all add: truthy_def)

theorem key_prefix_witness:
  "js ''greet'' \<noteq> [] \<and>
   \<not> includesNs \<lparr>isInitialized = True, nsSeparator = Some (js ''::''), defaultNS = None,
                  lookup = (\<lambda>f k (u::unit). k)\<rparr> (js ''a:b'') \<and>
   apply_translate \<lparr>isInitialized = True, nsSeparator = Some (js ''::''), defaultNS = None,
                    lookup = (\<lambda>f k (u::unit). k)\<rparr>
       (Closure (Some (js ''greet'')) GenericT) (js ''a:b'') () =
     (js ''greet.a:b'', [Translate GenericT (js ''greet.a:b'') ()]) \<and>
   apply_translate \<lparr>isInitialized = True, nsSeparator = Some (js '':''), defaultNS = None,
                    lookup = (\<lambda>f k (u::unit). k)\<rparr>
       (Closure (Some (js ''greet'')) GenericT) (js ''ns:key'') () =
     (js ''ns:key'', [Translate GenericT (js ''ns:key'') ()])"
proof -
  have p: "js ''greet'' \<noteq> []" by (simp add: js_def)
  have n: "\<not> includesNs \<lparr>isInitialized = True, nsSeparator = Some (js ''::''), defaultNS = None,
                  lookup = (\<lambda>f k (u::unit). k)\<rparr> (js ''a:b'')"
    by (simp add: includesNs_def js_def)
  from key_prefix [of "js ''greet''" "\<lparr>isInitialized = True, nsSeparator = Some (js ''::''),
      defaultNS = None, lookup = (\<lambda>f k (u::unit). k)\<rparr>" "js ''a:b''" GenericT "()"] p n
  have "apply_translate \<lparr>isInitialized = True, nsSeparator = Some (js ''::''), defaultNS = None,
                    lookup = (\<lambda>f k (u::unit). k)\<rparr>
       (Closure (Some (js ''greet'')) GenericT) (js ''a:b'') () =
     call_t \<lparr>isInitialized = True, nsSeparator = Some (js ''::''), defaultNS = None,
                    lookup = (\<lambda>f k (u::unit). k)\<rparr> GenericT (js ''greet'' @ js ''.'' @ js ''a:b'') ()"
    by blast
  then have prefixed: "apply_translate \<lparr>isInitialized = True, nsSeparator = Some (js ''::''), defaultNS = None,
                    lookup = (\<lambda>f k (u::unit). k)\<rparr>
       (Closure (Some (js ''greet'')) GenericT) (js ''a:b'') () =
     (js ''greet.a:b'', [Translate GenericT (js ''greet.a:b'') ()])"
    by (simp add: call_t_def js_def)
  have sep: "nsSeparator \<lparr>isInitialized = True, nsSeparator = Some (js '':''), defaultNS = None,
                    lookup = (\<lambda>f k (u::unit). k)\<rparr> = Some (js '':'')"
    by simp
  from key_prefix [of "js ''greet''" "\<lparr>isInitialized = True, nsSeparator = Some (js '':''),
      defaultNS = None, lookup = (\<lambda>f k (u::unit). k)\<rparr>" "js ''a:b''" GenericT "()"] sep
  have "apply_translate \<lparr>isInitialized = True, nsSeparator = Some (js '':''), defaultNS = None,
                    lookup = (\<lambda>f k (u::unit). k)\<rparr>
       (Closure (Some (js ''greet'')) GenericT) (js ''ns:key'') () =
     call_t \<lparr>isInitialized = True, nsSeparator = Some (js '':''), defaultNS = None,
                    lookup = (\<lambda>f k (u::unit). k)\<rparr> GenericT (js ''ns:key'') ()"
    by blast
  then have kept: "apply_translate \<lparr>isInitialized = True, nsSeparator = Some (js '':''), defaultNS = None,
                    lookup = (\<lambda>f k (u::unit). k)\<rparr>
       (Closure (Some (js ''greet'')) GenericT) (js ''ns:key'') () =
     (js ''ns:key'', [Translate GenericT (js ''ns:key'') ()])"
    by (simp add: call_t_def)
  show ?thesis
    by (rule conjI [OF p conjI [OF n conjI [OF prefixed kept]]])
qed

section \<open>The global translate function\<close>

text \<open>
  C4.  For every key, \<open>$t\<close> reads the reactive marker first, whatever the catalog's
  state; then, when the catalog is not initialised, it returns the key itself and calls
  no lookup; otherwise it returns what the calling component's translate function
  returns when there is one, and else what the catalog's generic lookup returns.
\<close>

theorem global_translate:
  "(\<exists>cs. snd (dollar_t i18next this key options) = ReadMarker # cs) \<and>
   (\<not> isInitialized i18next \<longrightarrow> dollar_t i18next this key options = (key, [ReadMarker])) \<and>
   (isInitialized i18next \<and> this = Some tr \<longrightarrow>
      dollar_t i18next this key options =
        (fst (apply_translate i18next tr key options),
         ReadMarker # snd (apply_translate i18next tr key options))) \<and>
   (isInitialized i18next \<and> this = None \<longrightarrow>
      dollar_t i18next this key options =
        (lookup i18next GenericT key options, [ReadMarker, Translate GenericT key options]))"
  by (cases "isInitialized i18next"; cases this)
    (simp_all add: dollar_t_def call_t_def split: prod.splits)

theorem global_translate_witness:
  "\<not> isInitialized \<lparr>isInitialized = False, nsSeparator = Some (js '':''), defaultNS = None,
                      lookup = (\<lambda>f k (u::unit). js ''translated'')\<rparr> \<and>
   dollar_t \<lparr>isInitialized = False, nsSeparator = Some (js '':''), defaultNS = None,
             lookup = (\<lambda>f k (u::unit). js ''translated'')\<rparr>
       (Some (Closure (Some (js ''greet'')) GenericT)) (js ''greeting'') () =
     (js ''greeting'', [ReadMarker]) \<and>
   dollar_t \<lparr>isInitialized = True, nsSeparator = Some (js '':''), defaultNS = None,
             lookup = (\<lambda>f k (u::unit). js ''translated'')\<rparr>
       None (js ''greeting'') () =
     (js ''translated'', [ReadMarker, Translate GenericT (js ''greeting'') ()])"
proof -
  have n: "\<not> isInitialized \<lparr>isInitialized = False, nsSeparator = Some (js '':''), defaultNS = None,
                      lookup = (\<lambda>f k (u::unit). js ''translated'')\<rparr>"
    by simp
  with global_translate [of "\<lparr>isInitialized = False, nsSeparator = Some (js '':''), defaultNS = None,
                      lookup = (\<lambda>f k (u::unit). js ''translated'')\<rparr>"
      "Some (Closure (Some (js ''greet'')) GenericT)" "js ''greeting''" "()"]
  have off: "dollar_t \<lparr>isInitialized = False, nsSeparator = Some (js '':''), defaultNS = None,
             lookup = (\<lambda>f k (u::unit). js ''translated'')\<rparr>
       (Some (Closure (Some (js ''greet'')) GenericT)) (js ''greeting'') () =
     (js ''greeting'', [ReadMarker])"
    by blast
  have i: "isInitialized \<lparr>isInitialized = True, nsSeparator = Some (js '':''), defaultNS = None,
                      lookup = (\<lambda>f k (u::unit). js ''translated'')\<rparr>"
    by simp
  with global_translate [of "\<lparr>isInitialized = True, nsSeparator = Some (js '':''), defaultNS = None,
                      lookup = (\<lambda>f k (u::unit). js ''translated'')\<rparr>"
      None "js ''greeting''" "()"]
  have "dollar_t \<lparr>isInitialized = True, nsSeparator = Some (js '':''), defaultNS = None,
             lookup = (\<lambda>f k (u::unit). js ''translated'')\<rparr>
       None (js ''greeting'') () =
     (lookup \<lparr>isInitialized = True, nsSeparator = Some (js '':''), defaultNS = None,
             lookup = (\<lambda>f k (u::unit). js ''translated'')\<rparr> GenericT (js ''greeting'') (),
      [ReadMarker, Translate GenericT (js ''greeting'') ()])"
    by blast
  then have on: "dollar_t \<lparr>isInitialized = True, nsSeparator = Some (js '':''), defaultNS = None,
             lookup = (\<lambda>f k (u::unit). js ''translated'')\<rparr>
       None (js ''greeting'') () =
     (js ''translated'', [ReadMarker, Translate GenericT (js ''greeting'') ()])"
    by simp
  show ?thesis
    by (rule conjI [OF n conjI [OF off on]])
qed

end
